theory Spec2Isabelle
  imports Complex_Main "HOL-Library.Log_Nat"
begin

section \<open>JavaScript numbers\<close>

text \<open>
  The pipeline in \<^verbatim>\<open>utils/videoCreationUtils\<close> (function \<^verbatim>\<open>assembleVideo\<close>) computes
  with JavaScript numbers, which are IEEE 754 binary64 values. A number is modelled as a
  finite value, one of the two infinities, or NaN; a finite value is the real number the
  double denotes. The sign of zero is not modelled (every zero is \<open>+0\<close>).
\<close>

datatype jsnum = Fin real | PInf | NInf | NaN

text \<open>
  Rounding to the nearest double, ties to even. \<open>expo x\<close> is the binary exponent of
  \<open>x\<close>, that is \<open>2 powi (expo x) \<le> \<bar>x\<bar> < 2 powi (expo x + 1)\<close>; \<open>rne\<close> rounds a
  real to the nearest integer, ties to the even one. A double has 53 significant bits, so
  its last bit weighs \<open>quantum x = 2 powi (expo x - 52)\<close>, and \<open>2 powi (- 1074)\<close> below
  the normal range, which starts at \<open>2 powi (- 1022)\<close>. \<open>rnd x\<close> is the nearest
  multiple of the quantum; \<open>fl x\<close> is the number an operation returns whose exact
  result is \<open>x\<close>: \<open>rnd x\<close>, or an infinity from \<open>2 ^ 1024\<close> on.
\<close>

definition expo :: "real \<Rightarrow> int" where
  "expo x = (if 1 \<le> \<bar>x\<bar> then bitlen \<lfloor>\<bar>x\<bar>\<rfloor> - 1 else - bitlen (\<lceil>1 / \<bar>x\<bar>\<rceil> - 1))"

definition rne :: "real \<Rightarrow> int" where
  "rne y = (let f = \<lfloor>y\<rfloor>; r = y - of_int f in
            if r < 1 / 2 then f else if 1 / 2 < r then f + 1
            else if even f then f else f + 1)"

definition qexp :: "real \<Rightarrow> int" where
  "qexp x = max (expo x) (- 1022)"

definition quantum :: "real \<Rightarrow> real" where
  "quantum x = 2 powi (qexp x - 52)"

definition rnd :: "real \<Rightarrow> real" where
  "rnd x = quantum x * of_int (rne (x / quantum x))"

definition fl :: "real \<Rightarrow> jsnum" where
  "fl x = (let r = rnd x in
           if 2 ^ 1024 \<le> r then PInf else if r \<le> - (2 ^ 1024) then NInf else Fin r)"

text \<open>The operator \<^verbatim>\<open>/\<close>.\<close>

fun js_div :: "jsnum \<Rightarrow> jsnum \<Rightarrow> jsnum" where
  "js_div NaN y = NaN"
| "js_div x NaN = NaN"
| "js_div (Fin a) (Fin b) =
     (if b = 0 then (if a = 0 then NaN else if 0 < a then PInf else NInf) else fl (a / b))"
| "js_div (Fin a) PInf = Fin 0"
| "js_div (Fin a) NInf = Fin 0"
| "js_div PInf (Fin b) = (if 0 \<le> b then PInf else NInf)"
| "js_div NInf (Fin b) = (if 0 \<le> b then NInf else PInf)"
| "js_div PInf PInf = NaN"
| "js_div PInf NInf = NaN"
| "js_div NInf PInf = NaN"
| "js_div NInf NInf = NaN"

text \<open>The operator \<^verbatim>\<open>*\<close>.\<close>

fun js_mul :: "jsnum \<Rightarrow> jsnum \<Rightarrow> jsnum" where
  "js_mul NaN y = NaN"
| "js_mul x NaN = NaN"
| "js_mul (Fin a) (Fin b) = fl (a * b)"
| "js_mul (Fin a) PInf = (if a = 0 then NaN else if 0 < a then PInf else NInf)"
| "js_mul (Fin a) NInf = (if a = 0 then NaN else if 0 < a then NInf else PInf)"
| "js_mul PInf (Fin b) = (if b = 0 then NaN else if 0 < b then PInf else NInf)"
| "js_mul NInf (Fin b) = (if b = 0 then NaN else if 0 < b then NInf else PInf)"
| "js_mul PInf PInf = PInf"
| "js_mul PInf NInf = NInf"
| "js_mul NInf PInf = NInf"
| "js_mul NInf NInf = PInf"

text \<open>The operator \<^verbatim>\<open>+\<close> on numbers.\<close>

fun js_add :: "jsnum \<Rightarrow> jsnum \<Rightarrow> jsnum" where
  "js_add NaN y = NaN"
| "js_add x NaN = NaN"
| "js_add (Fin a) (Fin b) = fl (a + b)"
| "js_add PInf NInf = NaN"
| "js_add NInf PInf = NaN"
| "js_add PInf y = PInf"
| "js_add NInf y = NInf"
| "js_add (Fin a) PInf = PInf"
| "js_add (Fin a) NInf = NInf"

text \<open>Unary minus, which is exact, and the operator \<^verbatim>\<open>-\<close>.\<close>

fun js_neg :: "jsnum \<Rightarrow> jsnum" where
  "js_neg (Fin a) = Fin (- a)"
| "js_neg PInf = NInf"
| "js_neg NInf = PInf"
| "js_neg NaN = NaN"

definition js_sub :: "jsnum \<Rightarrow> jsnum \<Rightarrow> jsnum" where
  "js_sub x y = js_add x (js_neg y)"

text \<open>Rounding towards zero, as the quotient of \<^verbatim>\<open>%\<close> is rounded.\<close>

definition trunc :: "real \<Rightarrow> int" where
  "trunc r = (if 0 \<le> r then \<lfloor>r\<rfloor> else \<lceil>r\<rceil>)"

text \<open>
  The operator \<^verbatim>\<open>%\<close>: the remainder has the sign of the dividend; it is NaN for an
  infinite dividend or a zero divisor, and the dividend itself for an infinite divisor.
  The remainder of two doubles is a double, so that \<^verbatim>\<open>%\<close> does not round.
\<close>

fun js_mod :: "jsnum \<Rightarrow> jsnum \<Rightarrow> jsnum" where
  "js_mod NaN y = NaN"
| "js_mod x NaN = NaN"
| "js_mod PInf y = NaN"
| "js_mod NInf y = NaN"
| "js_mod (Fin a) PInf = Fin a"
| "js_mod (Fin a) NInf = Fin a"
| "js_mod (Fin a) (Fin b) = (if b = 0 then NaN else Fin (a - b * of_int (trunc (a / b))))"

text \<open>\<^verbatim>\<open>Math.floor\<close> and \<^verbatim>\<open>Math.min\<close>, both exact.\<close>

fun js_floor :: "jsnum \<Rightarrow> jsnum" where
  "js_floor (Fin a) = Fin (of_int \<lfloor>a\<rfloor>)"
| "js_floor x = x"

fun js_min :: "jsnum \<Rightarrow> jsnum \<Rightarrow> jsnum" where
  "js_min NaN y = NaN"
| "js_min x NaN = NaN"
| "js_min NInf y = NInf"
| "js_min x NInf = NInf"
| "js_min PInf y = y"
| "js_min x PInf = x"
| "js_min (Fin a) (Fin b) = Fin (min a b)"

text \<open>The comparisons \<^verbatim>\<open><\<close> and \<^verbatim>\<open>>=\<close>: false as soon as one side is NaN.\<close>

fun js_less :: "jsnum \<Rightarrow> jsnum \<Rightarrow> bool" where
  "js_less NaN y = False"
| "js_less x NaN = False"
| "js_less (Fin a) (Fin b) = (a < b)"
| "js_less NInf NInf = False"
| "js_less NInf y = True"
| "js_less x NInf = False"
| "js_less PInf y = False"
| "js_less (Fin a) PInf = True"

fun js_ge :: "jsnum \<Rightarrow> jsnum \<Rightarrow> bool" where
  "js_ge NaN y = False"
| "js_ge x NaN = False"
| "js_ge x y = (\<not> js_less x y)"

section \<open>Scene scheduling and the Ken Burns transform\<close>

text \<open>
  \<^verbatim>\<open>const sceneDuration = audioDuration / images.length;\<close>
  The audio duration is a finite double, the image count a length.
\<close>

definition sceneDuration :: "real \<Rightarrow> nat \<Rightarrow> jsnum" where
  "sceneDuration audioDuration n = js_div (Fin audioDuration) (Fin (real n))"

text \<open>
  \<^verbatim>\<open>currentScene = Math.min(Math.floor(elapsedTime / sceneDuration), images.length - 1);\<close>
\<close>

definition sceneIndex :: "real \<Rightarrow> nat \<Rightarrow> jsnum \<Rightarrow> jsnum" where
  "sceneIndex audioDuration n elapsedTime =
     js_min (js_floor (js_div elapsedTime (sceneDuration audioDuration n)))
            (js_sub (Fin (real n)) (Fin 1))"

text \<open>\<^verbatim>\<open>const timeInScene = elapsedTime % sceneDuration;\<close>\<close>

definition timeInScene :: "real \<Rightarrow> nat \<Rightarrow> jsnum \<Rightarrow> jsnum" where
  "timeInScene audioDuration n elapsedTime =
     js_mod elapsedTime (sceneDuration audioDuration n)"

text \<open>The progress fraction \<^verbatim>\<open>timeInScene / sceneDuration\<close> inside the scale expression.\<close>

definition sceneProgress :: "real \<Rightarrow> nat \<Rightarrow> jsnum \<Rightarrow> jsnum" where
  "sceneProgress audioDuration n elapsedTime =
     js_div (timeInScene audioDuration n elapsedTime) (sceneDuration audioDuration n)"

text \<open>
  \<^verbatim>\<open>const scale = 1 + (timeInScene / sceneDuration) * 0.1;\<close>
  The literal \<^verbatim>\<open>0.1\<close> denotes the double nearest to one tenth.
\<close>

definition scale :: "jsnum \<Rightarrow> jsnum" where
  "scale p = js_add (Fin 1) (js_mul p (fl (1 / 10)))"

text \<open>
  The destination rectangle handed to \<^verbatim>\<open>drawImage\<close>:
  \<^verbatim>\<open>x = (canvas.width - image.width * scale) / 2\<close>,
  \<^verbatim>\<open>y = (canvas.height - image.height * scale) / 2\<close>, and the size
  \<^verbatim>\<open>image.width * scale\<close> by \<^verbatim>\<open>image.height * scale\<close>.
\<close>

record rect =
  destX :: jsnum
  destY :: jsnum
  destWidth :: jsnum
  destHeight :: jsnum

definition destRect :: "real \<Rightarrow> real \<Rightarrow> real \<Rightarrow> real \<Rightarrow> jsnum \<Rightarrow> rect" where
  "destRect canvasWidth canvasHeight imageWidth imageHeight s =
     \<lparr> destX = js_div (js_sub (Fin canvasWidth) (js_mul (Fin imageWidth) s)) (Fin 2),
       destY = js_div (js_sub (Fin canvasHeight) (js_mul (Fin imageHeight) s)) (Fin 2),
       destWidth = js_mul (Fin imageWidth) s,
       destHeight = js_mul (Fin imageHeight) s \<rparr>"

text \<open>
  The timeline as the specification words it, over the reals, for comparison with the
  code: \<open>min(floor(t / (D/N)), N-1)\<close> and \<open>(t mod (D/N)) / (D/N)\<close>, where
  \<open>t mod d\<close> is \<open>t - d * floor(t / d)\<close>, and the zoom \<open>1 + p * 0.1\<close>.
\<close>

definition spec_sceneIndex :: "real \<Rightarrow> nat \<Rightarrow> real \<Rightarrow> int" where
  "spec_sceneIndex D N t = min \<lfloor>t / (D / real N)\<rfloor> (int N - 1)"

definition spec_mod :: "real \<Rightarrow> real \<Rightarrow> real" where
  "spec_mod t d = t - d * of_int \<lfloor>t / d\<rfloor>"

definition spec_sceneProgress :: "real \<Rightarrow> nat \<Rightarrow> real \<Rightarrow> real" where
  "spec_sceneProgress D N t = spec_mod t (D / real N) / (D / real N)"


text \<open>
  \<open>top\<close> is the largest power of two among the doubles. \<open>index_of sd N t\<close> is the
  value of \<^verbatim>\<open>Math.min(Math.floor(t / sd), N - 1)\<close> on finite numbers, where the
  quotient is rounded and \<^verbatim>\<open>Math.min\<close> clamps a quotient that overflowed to
  \<^verbatim>\<open>Infinity\<close>.
\<close>

definition top :: real where "top = 2 ^ 1023"

definition index_of :: "real \<Rightarrow> nat \<Rightarrow> real \<Rightarrow> int" where
  "index_of sd N t = (case fl (t / sd) of Fin q \<Rightarrow> min \<lfloor>q\<rfloor> (int N - 1) | _ \<Rightarrow> int N - 1)"

section \<open>The assembly run\<close>

text \<open>
  \<^verbatim>\<open>assembleVideo(images, audioBuffer, audioContext)\<close> returns
  \<^verbatim>\<open>new Promise(async (resolve, reject) => { ... })\<close>. The model keeps what the claims
  observe: the state of the returned promise, the chunk array, the effects on the host
  (audio source, recorder, canvas) in the order they happen, and the exceptions nobody
  catches.
\<close>

record generated_image =
  base64 :: string
  mimeType :: string

text \<open>An \<^verbatim>\<open>HTMLImageElement\<close>; the code reads its \<^verbatim>\<open>width\<close> and \<^verbatim>\<open>height\<close>.\<close>

record image_element =
  width :: real
  height :: real

text \<open>
  The host as far as the code consults it: whether \<^verbatim>\<open>canvas.getContext('2d')\<close> returns
  a context, how each data URL loads (\<open>Some el\<close>: \<^verbatim>\<open>onload\<close> fires; \<open>None\<close>:
  \<^verbatim>\<open>onerror\<close> fires), whether \<^verbatim>\<open>canvas.captureStream\<close> exists, whether the audio
  graph can be wired and the source started, whether the destination stream then has
  an audio track (\<^verbatim>\<open>stream.addTrack\<close> throws on \<^verbatim>\<open>undefined\<close>), whether the
  \<^verbatim>\<open>MediaRecorder\<close> constructor accepts \<^verbatim>\<open>'video/webm; codecs=vp9,opus'\<close> (it throws
  otherwise), and the value of \<^verbatim>\<open>performance.now()\<close> read into \<^verbatim>\<open>startTime\<close>.
\<close>

record host =
  hasContext2d :: bool
  loadImage :: "generated_image \<Rightarrow> image_element option"
  hasCaptureStream :: bool
  audioGraphWorks :: bool
  hasAudioTrack :: bool
  recorderSupported :: bool
  performanceNow :: real

type_synonym chunk = "nat list"

record blob =
  blobBytes :: "nat list"
  blobType :: string

text \<open>\<^verbatim>\<open>new Blob(parts, { type })\<close>: the bytes of the parts, in order.\<close>

definition newBlob :: "chunk list \<Rightarrow> string \<Rightarrow> blob" where
  "newBlob parts ty = \<lparr> blobBytes = concat parts, blobType = ty \<rparr>"

text \<open>
  The values passed to \<^verbatim>\<open>reject\<close>: the \<^verbatim>\<open>Error('Canvas context not available')\<close>
  and the event handed to \<^verbatim>\<open>recorder.onerror\<close>.
\<close>

datatype reason = CanvasContextNotAvailable | RecorderErrorEvent string

datatype promise = Pending | Resolved blob | Rejected reason

text \<open>A promise settles once: \<^verbatim>\<open>resolve\<close> and \<^verbatim>\<open>reject\<close> do nothing afterwards.\<close>

definition settle :: "promise \<Rightarrow> promise \<Rightarrow> promise" where
  "settle p outcome = (if p = Pending then outcome else p)"

text \<open>
  Exceptions that escape: a rejected image load, a missing \<^verbatim>\<open>captureStream\<close>, a failing
  audio graph, a missing audio track and an unsupported recorder type are thrown inside
  the \<^verbatim>\<open>async\<close> executor after its \<^verbatim>\<open>await\<close>; reading \<^verbatim>\<open>image.width\<close> of
  \<^verbatim>\<open>undefined\<close> is thrown inside the animation-frame callback.
\<close>

datatype exn =
  ImageLoadFailed | CaptureStreamMissing | AudioGraphFailed | AudioTrackMissing
  | RecorderNotSupported | ImageUndefined

datatype effect =
  AudioStarted | RecorderStarted | RecorderStopRequested
  | FillBlack | DrawImage image_element rect | BlobBuilt blob

text \<open>The constants of the closure, fixed once set-up is through.\<close>

record closure =
  audioDuration :: real
  imageCount :: nat
  imageElements :: "image_element list"
  startTime :: real

text \<open>What changes during the run.\<close>

record st =
  result :: promise
  chunks :: "chunk list"
  currentScene :: jsnum
  framePending :: bool
  effects :: "effect list"
  uncaught :: "exn list"

definition initial :: st where
  "initial = \<lparr> result = Pending, chunks = [], currentScene = Fin 0, framePending = False,
               effects = [], uncaught = [] \<rparr>"

text \<open>
  \<^verbatim>\<open>await Promise.all(images.map(img => new Promise((resolve, reject) => ...)))\<close>:
  the elements in the order of the images when every load succeeds, a rejection
  as soon as one fails.
\<close>

fun loadAll :: "(generated_image \<Rightarrow> image_element option) \<Rightarrow> generated_image list
    \<Rightarrow> image_element list option" where
  "loadAll load [] = Some []"
| "loadAll load (img # imgs) =
     (case load img of
        None \<Rightarrow> None
      | Some el \<Rightarrow> (case loadAll load imgs of None \<Rightarrow> None | Some els \<Rightarrow> Some (el # els)))"

text \<open>
  Set-up, up to \<^verbatim>\<open>requestAnimationFrame(draw)\<close>. Only the missing context is reported
  through \<^verbatim>\<open>reject\<close>. Everything after the \<^verbatim>\<open>await\<close> runs in the continuation of the
  \<^verbatim>\<open>async\<close> executor, whose own promise the \<^verbatim>\<open>Promise\<close> constructor drops: an
  exception there leaves the returned promise pending. The result is the closure, when
  set-up is through and the handlers are installed, and the state.
\<close>

definition assembleVideo :: "host \<Rightarrow> generated_image list \<Rightarrow> real \<Rightarrow> closure option \<times> st" where
  "assembleVideo h images duration =
     (if \<not> hasContext2d h then (None, initial\<lparr>result := Rejected CanvasContextNotAvailable\<rparr>)
      else case loadAll (loadImage h) images of
        None \<Rightarrow> (None, initial\<lparr>uncaught := [ImageLoadFailed]\<rparr>)
      | Some els \<Rightarrow>
          if \<not> hasCaptureStream h then (None, initial\<lparr>uncaught := [CaptureStreamMissing]\<rparr>)
          else if \<not> audioGraphWorks h then (None, initial\<lparr>uncaught := [AudioGraphFailed]\<rparr>)
          else if \<not> hasAudioTrack h
            then (None, initial\<lparr>effects := [AudioStarted], uncaught := [AudioTrackMissing]\<rparr>)
          else if \<not> recorderSupported h
            then (None, initial\<lparr>effects := [AudioStarted], uncaught := [RecorderNotSupported]\<rparr>)
          else (Some \<lparr> audioDuration = duration, imageCount = length images,
                       imageElements = els, startTime = performanceNow h \<rparr>,
                initial\<lparr>effects := [AudioStarted, RecorderStarted], framePending := True\<rparr>))"

text \<open>
  \<^verbatim>\<open>imageElements[currentScene]\<close>: an element for an integer index inside the array,
  \<^verbatim>\<open>undefined\<close> for every other number.
\<close>

definition element :: "'a list \<Rightarrow> jsnum \<Rightarrow> 'a option" where
  "element xs i =
     (case i of
        Fin r \<Rightarrow> (if 0 \<le> r \<and> r = of_int \<lfloor>r\<rfloor> \<and> \<lfloor>r\<rfloor> < int (length xs)
                  then Some (xs ! nat \<lfloor>r\<rfloor>) else None)
      | _ \<Rightarrow> None)"

text \<open>
  \<^verbatim>\<open>const elapsedTime = (now - startTime) / 1000;\<close>
\<close>

definition elapsedTime :: "closure \<Rightarrow> real \<Rightarrow> jsnum" where
  "elapsedTime c now = js_div (js_sub (Fin now) (Fin (startTime c))) (Fin 1000)"

text \<open>
  One call of \<^verbatim>\<open>draw(now)\<close>. Past the audio duration it calls \<^verbatim>\<open>recorder.stop()\<close> and
  returns without asking for another frame. Otherwise it picks the scene, fills the
  1280 by 720 canvas black and draws the image; \<^verbatim>\<open>image.width\<close> throws when the lookup
  gave \<^verbatim>\<open>undefined\<close>, after the fill and before the next frame is requested.
\<close>

definition draw :: "closure \<Rightarrow> st \<Rightarrow> real \<Rightarrow> st" where
  "draw c s now =
     (let elapsed = elapsedTime c now in
      if js_ge elapsed (Fin (audioDuration c))
      then s\<lparr>framePending := False, effects := effects s @ [RecorderStopRequested]\<rparr>
      else
        let scene = sceneIndex (audioDuration c) (imageCount c) elapsed in
        case element (imageElements c) scene of
          None \<Rightarrow>
            s\<lparr>currentScene := scene, framePending := False,
              effects := effects s @ [FillBlack], uncaught := uncaught s @ [ImageUndefined]\<rparr>
        | Some el \<Rightarrow>
            s\<lparr>currentScene := scene,
              effects := effects s @
                [FillBlack,
                 DrawImage el
                   (destRect 1280 720 (width el) (height el)
                      (scale (sceneProgress (audioDuration c) (imageCount c) elapsed)))]\<rparr>)"

text \<open>
  The events of the host after set-up: \<^verbatim>\<open>ondataavailable\<close>, \<^verbatim>\<open>onstop\<close>,
  \<^verbatim>\<open>onerror\<close>, and an animation frame with its time stamp. The frame callback runs
  only while one is requested. The blob is typed \<^verbatim>\<open>'video/webm'\<close>.
\<close>

datatype event = DataAvailable chunk | Stopped | Errored string | AnimationFrame real

fun step :: "closure \<Rightarrow> st \<Rightarrow> event \<Rightarrow> st" where
  "step c s (DataAvailable d) = s\<lparr>chunks := chunks s @ [d]\<rparr>"
| "step c s Stopped =
     (let b = newBlob (chunks s) ''video/webm''
      in s\<lparr>effects := effects s @ [BlobBuilt b], result := settle (result s) (Resolved b)\<rparr>)"
| "step c s (Errored e) = s\<lparr>result := settle (result s) (Rejected (RecorderErrorEvent e))\<rparr>"
| "step c s (AnimationFrame now) = (if framePending s then draw c s now else s)"

text \<open>A run: no event reaches the code unless set-up installed the handlers.\<close>

definition run :: "closure option \<times> st \<Rightarrow> event list \<Rightarrow> st" where
  "run cs evs = (case fst cs of None \<Rightarrow> snd cs | Some c \<Rightarrow> foldl (step c) (snd cs) evs)"

text \<open>The chunks a sequence of events carries, and the images a state has drawn.\<close>

fun dataOf :: "event list \<Rightarrow> chunk list" where
  "dataOf [] = []"
| "dataOf (DataAvailable d # evs) = d # dataOf evs"
| "dataOf (ev # evs) = dataOf evs"

fun isSignal :: "event \<Rightarrow> bool" where
  "isSignal Stopped = True"
| "isSignal (Errored e) = True"
| "isSignal ev = False"

fun isDrawImage :: "effect \<Rightarrow> bool" where
  "isDrawImage (DrawImage el r) = True"
| "isDrawImage eff = False"

definition drawn :: "st \<Rightarrow> effect list" where
  "drawn s = filter isDrawImage (effects s)"

text \<open>A host on which everything works, but the image whose data is \<open>''corrupt''\<close>.\<close>

definition sampleElement :: image_element where
  "sampleElement = \<lparr> width = 1024, height = 1024 \<rparr>"

definition sampleLoad :: "generated_image \<Rightarrow> image_element option" where
  "sampleLoad img = (if base64 img = ''corrupt'' then None else Some sampleElement)"

definition sampleHost :: host where
  "sampleHost = \<lparr> hasContext2d = True, loadImage = sampleLoad, hasCaptureStream = True,
                  audioGraphWorks = True, hasAudioTrack = True, recorderSupported = True,
                  performanceNow = 5000 \<rparr>"

definition png :: "string \<Rightarrow> generated_image" where
  "png d = \<lparr> base64 = d, mimeType = ''image/png'' \<rparr>"

section \<open>Auxiliary facts\<close>

text \<open>Rounding to an integer, the binary exponent, and rounding to a double.\<close>

lemma rne_cases:
  "rne y = \<lfloor>y\<rfloor> \<or> rne y = \<lfloor>y\<rfloor> + 1"
  by (simp add: rne_def Let_def)

lemma rne_of_int: "rne (of_int k) = k"
  by (simp add: rne_def)

lemma rne_lower: "\<lfloor>y\<rfloor> \<le> rne y"
  using rne_cases[of y] by linarith

lemma rne_upper: "rne y \<le> \<lfloor>y\<rfloor> + 1"
  using rne_cases[of y] by linarith

lemma rne_error: "\<bar>of_int (rne y) - y\<bar> \<le> 1 / 2"
proof -
  have f: "of_int \<lfloor>y\<rfloor> \<le> y" "y < of_int \<lfloor>y\<rfloor> + 1" by linarith+
  show ?thesis
  proof (cases "y - of_int \<lfloor>y\<rfloor> < 1 / 2")
    case True
    then have "rne y = \<lfloor>y\<rfloor>" by (simp add: rne_def)
    then show ?thesis using True f by simp
  next
    case False
    note nf = False
    show ?thesis
    proof (cases "1 / 2 < y - of_int \<lfloor>y\<rfloor>")
      case True
      then have "rne y = \<lfloor>y\<rfloor> + 1" using nf by (simp add: rne_def)
      then show ?thesis using True f by simp
    next
      case False
      then have h: "y - of_int \<lfloor>y\<rfloor> = 1 / 2" using nf by simp
      show ?thesis using rne_cases[of y] h by auto
    qed
  qed
qed

lemma rne_mono:
  assumes "x \<le> y"
  shows "rne x \<le> rne y"
proof (cases "\<lfloor>x\<rfloor> = \<lfloor>y\<rfloor>")
  case True
  have "x - of_int \<lfloor>y\<rfloor> \<le> y - of_int \<lfloor>y\<rfloor>" using assms by simp
  then show ?thesis using True by (auto simp: rne_def Let_def)
next
  case False
  have "\<lfloor>x\<rfloor> \<le> \<lfloor>y\<rfloor>" using assms by (rule floor_mono)
  then have "\<lfloor>x\<rfloor> + 1 \<le> \<lfloor>y\<rfloor>" using False by simp
  then show ?thesis using rne_upper[of x] rne_lower[of y] by linarith
qed

lemma rne_ge: "of_int k \<le> y \<Longrightarrow> k \<le> rne y"
  using rne_mono[of "of_int k" y] by (simp add: rne_of_int)

lemma rne_le: "y \<le> of_int k \<Longrightarrow> rne y \<le> k"
  using rne_mono[of y "of_int k"] by (simp add: rne_of_int)

lemma rne_minus: "rne (- y) = - rne y"
proof (cases "y = of_int \<lfloor>y\<rfloor>")
  case True
  then obtain k where "y = of_int k" ..
  then have "- y = of_int (- k)" by simp
  then show ?thesis using \<open>y = of_int k\<close> by (simp only: rne_of_int)
next
  case False
  then have "\<lceil>y\<rceil> = \<lfloor>y\<rfloor> + 1" by (simp add: ceiling_altdef)
  then have fl: "\<lfloor>- y\<rfloor> = - \<lfloor>y\<rfloor> - 1" by (simp add: ceiling_def)
  define f where "f = \<lfloor>y\<rfloor>"
  define r where "r = y - of_int f"
  have r': "- y - of_int (- f - 1) = 1 - r" by (simp add: r_def)
  have ev: "even (- f - 1) = odd f" by simp
  have "rne y = (if r < 1 / 2 then f else if 1 / 2 < r then f + 1 else if even f then f else f + 1)"
    by (simp add: rne_def f_def r_def Let_def)
  moreover have "rne (- y) = (if 1 - r < 1 / 2 then - f - 1 else if 1 / 2 < 1 - r then - f
       else if odd f then - f - 1 else - f)"
    unfolding rne_def Let_def fl f_def[symmetric] r' ev by simp
  ultimately show ?thesis by auto
qed

lemma p2_pos: "0 < (2::real) powi e"
  by (simp add: zero_less_power_int)

lemma p2_mono: "a \<le> b \<Longrightarrow> (2::real) powi a \<le> 2 powi b"
  by (rule power_int_increasing) simp_all

lemma p2_strict: "a < b \<Longrightarrow> (2::real) powi a < 2 powi b"
  by (rule power_int_strict_increasing) simp_all

lemma p2_less_cancel: "(2::real) powi a < 2 powi b \<Longrightarrow> a < b"
  using p2_mono[of b a] by (cases "a < b") auto

lemma p2_le_cancel: "(2::real) powi a \<le> 2 powi b \<Longrightarrow> a \<le> b"
  using p2_strict[of b a] by (cases "a \<le> b") auto

lemma p2_add: "(2::real) powi (a + b) = 2 powi a * 2 powi b"
  by (rule power_int_add) simp

lemma p2_diff: "(2::real) powi (a - b) = 2 powi a / 2 powi b"
  by (rule power_int_diff) simp

lemma p2_nat: "0 \<le> e \<Longrightarrow> (2::real) powi e = 2 ^ nat e"
  by (rule power_int_nonneg_exp)

lemma p2_neg: "0 \<le> k \<Longrightarrow> (2::real) powi (- k) = 1 / 2 ^ nat k"
  by (simp add: power_int_minus_divide power_int_nonneg_exp)

lemma bitlen_pos: "0 < n \<Longrightarrow> 1 \<le> bitlen n"
  using bitlen_eq_zero_iff[of n] bitlen_nonneg[of n] by linarith

lemma expo_bounds_pos:
  assumes "0 < a"
  shows "2 powi expo a \<le> a \<and> a < 2 powi (expo a + 1)"
proof (cases "1 \<le> a")
  case True
  define n where "n = \<lfloor>a\<rfloor>"
  have n: "0 < n" using True by (simp add: n_def)
  have e: "expo a = bitlen n - 1" using True assms by (simp add: expo_def n_def)
  have b1: "1 \<le> bitlen n" using n by (rule bitlen_pos)
  have bb: "2 ^ nat (bitlen n - 1) \<le> n" "n < 2 ^ nat (bitlen n)"
    using bitlen_bounds[OF n] by simp_all
  have "real_of_int (2 ^ nat (bitlen n - 1)) \<le> real_of_int n" using bb(1) by (simp only: of_int_le_iff)
  then have lo: "(2::real) ^ nat (bitlen n - 1) \<le> real_of_int n" by simp
  have "n + 1 \<le> 2 ^ nat (bitlen n)" using bb(2) by simp
  then have "real_of_int (n + 1) \<le> real_of_int (2 ^ nat (bitlen n))" by (simp only: of_int_le_iff)
  then have hi: "real_of_int n + 1 \<le> (2::real) ^ nat (bitlen n)" by simp
  have fa: "real_of_int n \<le> a" "a < real_of_int n + 1" unfolding n_def by linarith+
  have "2 powi expo a = (2::real) ^ nat (bitlen n - 1)" using b1 by (simp add: e p2_nat)
  moreover have "2 powi (expo a + 1) = (2::real) ^ nat (bitlen n)" using b1 by (simp add: e p2_nat)
  ultimately show ?thesis using lo hi fa by linarith
next
  case False
  define y where "y = 1 / a"
  define m where "m = \<lceil>y\<rceil> - 1"
  have y1: "1 < y" using False assms by (simp add: y_def)
  then have "2 \<le> \<lceil>y\<rceil>" by (simp add: le_ceiling_iff)
  then have m: "0 < m" by (simp add: m_def)
  have e: "expo a = - bitlen m" using False assms by (simp add: expo_def m_def y_def)
  have b1: "1 \<le> bitlen m" using m by (rule bitlen_pos)
  have bb: "2 ^ nat (bitlen m - 1) \<le> m" "m < 2 ^ nat (bitlen m)"
    using bitlen_bounds[OF m] by simp_all
  have "real_of_int (2 ^ nat (bitlen m - 1)) \<le> real_of_int m" using bb(1) by (simp only: of_int_le_iff)
  then have lo: "(2::real) ^ nat (bitlen m - 1) \<le> real_of_int m" by simp
  have "m + 1 \<le> 2 ^ nat (bitlen m)" using bb(2) by simp
  then have "real_of_int (m + 1) \<le> real_of_int (2 ^ nat (bitlen m))" by (simp only: of_int_le_iff)
  then have hi: "real_of_int m + 1 \<le> (2::real) ^ nat (bitlen m)" by simp
  have fy: "real_of_int m < y" "y \<le> real_of_int m + 1" unfolding m_def by linarith+
  have ylo: "(2::real) ^ nat (bitlen m - 1) < y" using lo fy by linarith
  have yhi: "y \<le> (2::real) ^ nat (bitlen m)" using hi fy by linarith
  have a: "a = 1 / y" using assms by (simp add: y_def)
  have ypos: "0 < y" using y1 by simp
  have "1 / (2::real) ^ nat (bitlen m) \<le> 1 / y"
    using yhi ypos by (intro divide_left_mono) simp_all
  then have A1: "1 / (2::real) ^ nat (bitlen m) \<le> a" by (simp only: a[symmetric])
  have "1 / y < 1 / (2::real) ^ nat (bitlen m - 1)"
    using ylo ypos by (intro divide_strict_left_mono) simp_all
  then have A2: "a < 1 / (2::real) ^ nat (bitlen m - 1)" by (simp only: a[symmetric])
  have "0 \<le> bitlen m" using b1 by simp
  then have pe: "2 powi expo a = 1 / (2::real) ^ nat (bitlen m)"
    unfolding e by (rule p2_neg)
  have "expo a + 1 = - (bitlen m - 1)" by (simp add: e)
  moreover have "0 \<le> bitlen m - 1" using b1 by simp
  ultimately have pe1: "2 powi (expo a + 1) = 1 / (2::real) ^ nat (bitlen m - 1)"
    by (simp only: p2_neg)
  have L: "2 powi expo a \<le> a" using A1 by (simp only: pe)
  have U: "a < 2 powi (expo a + 1)" using A2 by (simp only: pe1)
  show ?thesis using L U by simp
qed

lemma expo_abs: "expo \<bar>x\<bar> = expo x"
  by (simp add: expo_def)

lemma expo_minus: "expo (- x) = expo x"
  by (simp add: expo_def)

lemma expo_bounds:
  "x \<noteq> 0 \<Longrightarrow> 2 powi expo x \<le> \<bar>x\<bar> \<and> \<bar>x\<bar> < 2 powi (expo x + 1)"
  using expo_bounds_pos[of "\<bar>x\<bar>"] by (simp add: expo_abs)

lemma expo_unique:
  assumes "2 powi k \<le> \<bar>x\<bar>" and "\<bar>x\<bar> < 2 powi (k + 1)"
  shows "expo x = k"
proof -
  have "0 < \<bar>x\<bar>" using assms(1) p2_pos[of k] by linarith
  then have x: "x \<noteq> 0" by simp
  have "2 powi k < (2::real) powi (expo x + 1)" using assms(1) expo_bounds[OF x] by linarith
  then have 1: "k < expo x + 1" by (rule p2_less_cancel)
  have "2 powi expo x < (2::real) powi (k + 1)" using assms(2) expo_bounds[OF x] by linarith
  then have 2: "expo x < k + 1" by (rule p2_less_cancel)
  show ?thesis using 1 2 by simp
qed

lemma expo_mono:
  assumes "x \<noteq> 0" and "\<bar>x\<bar> \<le> \<bar>y\<bar>"
  shows "expo x \<le> expo y"
proof -
  have y: "y \<noteq> 0" using assms by auto
  have "2 powi expo x < (2::real) powi (expo y + 1)"
    using expo_bounds[OF assms(1)] expo_bounds[OF y] assms(2) by linarith
  then have "expo x < expo y + 1" by (rule p2_less_cancel)
  then show ?thesis by simp
qed

lemma p2_split: "c = a + b \<Longrightarrow> (2::real) powi c = 2 powi a * 2 powi b"
  by (simp add: p2_add)

lemma quantum_qexp: "quantum x = 2 powi (qexp x - 52)"
  by (simp add: quantum_def)

lemma quantum_pos: "0 < quantum x"
  by (simp add: quantum_def p2_pos)

lemma quantum_minus: "quantum (- x) = quantum x"
  by (simp add: quantum_def qexp_def expo_minus)

lemma qexp_mono: "x \<noteq> 0 \<Longrightarrow> \<bar>x\<bar> \<le> \<bar>y\<bar> \<Longrightarrow> qexp x \<le> qexp y"
  using expo_mono[of x y] by (simp add: qexp_def)

lemma rnd_zero: "rnd 0 = 0"
  by (simp add: rnd_def rne_def)

lemma rnd_minus: "rnd (- x) = - rnd x"
  by (simp add: rnd_def quantum_minus rne_minus)

lemma rnd_nonneg: "0 \<le> x \<Longrightarrow> 0 \<le> rnd x"
proof -
  assume "0 \<le> x"
  then have "of_int 0 \<le> x / quantum x" using quantum_pos[of x] by simp
  then have "0 \<le> rne (x / quantum x)" by (rule rne_ge)
  then show ?thesis using quantum_pos[of x] by (simp add: rnd_def)
qed

lemma rnd_upper:
  assumes "0 < x"
  shows "rnd x \<le> 2 powi (qexp x + 1)"
proof -
  have x: "x \<noteq> 0" using assms by simp
  have "x < 2 powi (expo x + 1)" using expo_bounds[OF x] assms by simp
  also have "\<dots> \<le> 2 powi (qexp x + 1)" by (rule p2_mono) (simp add: qexp_def)
  finally have "x < 2 powi (qexp x + 1)" .
  moreover have "2 powi (qexp x + 1) = quantum x * (2::real) ^ 53"
  proof -
    have "(2::real) powi (qexp x + 1) = 2 powi (qexp x - 52) * 2 powi 53"
      by (rule p2_split) simp
    then show ?thesis by (simp add: quantum_qexp)
  qed
  ultimately have "x / quantum x \<le> (2::real) ^ 53"
    using quantum_pos[of x] by (simp add: pos_divide_le_eq mult.commute)
  then have "x / quantum x \<le> of_int (2 ^ 53)" by simp
  then have "rne (x / quantum x) \<le> 2 ^ 53" by (rule rne_le)
  then have "real_of_int (rne (x / quantum x)) \<le> real_of_int (2 ^ 53)" by (simp only: of_int_le_iff)
  then have "quantum x * real_of_int (rne (x / quantum x)) \<le> quantum x * real_of_int (2 ^ 53)"
    using quantum_pos[of x] by (simp only: mult_le_cancel_left_pos)
  then show ?thesis
    using \<open>2 powi (qexp x + 1) = quantum x * (2::real) ^ 53\<close> by (simp add: rnd_def)
qed

lemma rnd_lower:
  assumes "0 < x" and "- 1022 \<le> expo x"
  shows "2 powi (expo x) \<le> rnd x"
proof -
  have x: "x \<noteq> 0" using assms by simp
  have q: "qexp x = expo x" using assms(2) by (simp add: qexp_def)
  have lo: "2 powi (expo x) \<le> x" using expo_bounds[OF x] assms by simp
  have e: "2 powi (expo x) = quantum x * (2::real) ^ 52"
  proof -
    have "(2::real) powi (expo x) = 2 powi (expo x - 52) * 2 powi 52"
      by (rule p2_split) simp
    then show ?thesis by (simp add: quantum_qexp q)
  qed
  have "(2::real) ^ 52 \<le> x / quantum x"
    using lo quantum_pos[of x] by (simp add: e pos_le_divide_eq mult.commute)
  then have "of_int (2 ^ 52) \<le> x / quantum x" by simp
  then have "2 ^ 52 \<le> rne (x / quantum x)" by (rule rne_ge)
  then have "real_of_int (2 ^ 52) \<le> real_of_int (rne (x / quantum x))" by (simp only: of_int_le_iff)
  then have "quantum x * real_of_int (2 ^ 52) \<le> quantum x * real_of_int (rne (x / quantum x))"
    using quantum_pos[of x] by (simp only: mult_le_cancel_left_pos)
  then show ?thesis by (simp add: rnd_def e)
qed

lemma rnd_mono_pos:
  assumes "0 < x" and "x \<le> y"
  shows "rnd x \<le> rnd y"
proof (cases "qexp x = qexp y")
  case True
  then have q: "quantum x = quantum y" by (simp add: quantum_qexp)
  have "x / quantum y \<le> y / quantum y"
    using assms(2) quantum_pos[of y] by (simp add: divide_right_mono)
  then have "rne (x / quantum y) \<le> rne (y / quantum y)" by (rule rne_mono)
  then have "real_of_int (rne (x / quantum y)) \<le> real_of_int (rne (y / quantum y))"
    by (simp only: of_int_le_iff)
  then show ?thesis using quantum_pos[of y] by (simp add: rnd_def q)
next
  case False
  have x: "x \<noteq> 0" and y: "0 < y" using assms by simp_all
  have "qexp x \<le> qexp y" using qexp_mono[OF x, of y] assms by simp
  then have lt: "qexp x < qexp y" using False by simp
  have "- 1022 \<le> qexp x" by (simp add: qexp_def)
  then have ey: "qexp y = expo y" "- 1022 \<le> expo y"
    using lt by (auto simp: qexp_def max_def split: if_splits)
  have "rnd x \<le> 2 powi (qexp x + 1)" using assms(1) by (rule rnd_upper)
  also have "\<dots> \<le> 2 powi (expo y)" using lt ey by (intro p2_mono) simp
  also have "\<dots> \<le> rnd y" using y ey(2) by (rule rnd_lower)
  finally show ?thesis .
qed

lemma rnd_mono:
  assumes "x \<le> y"
  shows "rnd x \<le> rnd y"
proof (cases "0 < x")
  case True
  then show ?thesis using assms by (rule rnd_mono_pos)
next
  case False
  note nx = False
  show ?thesis
  proof (cases "0 \<le> y")
    case True
    have "0 \<le> rnd (- x)" using nx by (intro rnd_nonneg) simp
    then have "rnd x \<le> 0" by (simp add: rnd_minus)
    moreover have "0 \<le> rnd y" using True by (rule rnd_nonneg)
    ultimately show ?thesis by simp
  next
    case False
    then have "0 < - y" "- y \<le> - x" using assms by simp_all
    then have "rnd (- y) \<le> rnd (- x)" by (rule rnd_mono_pos)
    then show ?thesis by (simp add: rnd_minus)
  qed
qed

lemma rnd_grid:
  assumes "x = quantum x * of_int k"
  shows "rnd x = x"
proof -
  have "x / quantum x = of_int k"
    using quantum_pos[of x] assms by (metis less_irrefl nonzero_mult_div_cancel_left)
  then have "rne (x / quantum x) = k" by (simp only: rne_of_int)
  then show ?thesis using assms by (simp add: rnd_def)
qed

lemma rnd_rep_pos:
  assumes x: "x = of_int m * 2 powi j" and m: "0 < m" "m \<le> 2 ^ 53" and j: "- 1074 \<le> j"
  shows "rnd x = x"
proof -
  have xpos: "0 < x" using m(1) by (simp add: x p2_pos)
  have x0: "x \<noteq> 0" using xpos by simp
  have m1: "(1::real) \<le> of_int m" using m(1) by simp
  have mle: "real_of_int m \<le> 2 ^ 53"
  proof -
    have "real_of_int m \<le> real_of_int (2 ^ 53)" using m(2) by (simp only: of_int_le_iff)
    then show ?thesis by simp
  qed
  have low: "2 powi j \<le> x"
    using m1 p2_pos[of j] by (simp add: x)
  show ?thesis
  proof (cases "m = 2 ^ 53")
    case True
    have "x = 2 powi 53 * 2 powi j" by (simp add: x True)
    then have xp: "x = 2 powi (53 + j)" by (simp only: p2_add)
    have "2 powi (53 + j) \<le> \<bar>x\<bar>" "\<bar>x\<bar> < 2 powi (53 + j + 1)"
      using p2_strict[of "53 + j" "53 + j + 1"] p2_pos[of "53 + j"] by (simp_all add: xp)
    then have e: "expo x = 53 + j" by (rule expo_unique)
    then have q: "qexp x = 53 + j" using j by (simp add: qexp_def)
    have "quantum x = 2 powi (1 + j)" by (simp add: quantum_qexp q)
    moreover have "(2::real) powi (53 + j) = 2 powi (1 + j) * 2 powi 52"
      by (rule p2_split) simp
    ultimately have "x = quantum x * of_int (2 ^ 52)" by (simp add: xp)
    then show ?thesis by (rule rnd_grid)
  next
    case False
    then have "m < 2 ^ 53" using m(2) by simp
    then have "real_of_int m < real_of_int (2 ^ 53)" by (simp only: of_int_less_iff)
    then have "real_of_int m < 2 powi 53" by simp
    then have "x < 2 powi 53 * 2 powi j" using p2_pos[of j] by (simp add: x)
    then have up: "x < 2 powi (53 + j)" by (simp only: p2_add)
    have "2 powi expo x < (2::real) powi (53 + j)" using expo_bounds[OF x0] up xpos by simp
    then have "expo x < 53 + j" by (rule p2_less_cancel)
    then have "qexp x - 52 \<le> j" using j by (simp add: qexp_def)
    then obtain d where d: "j = (qexp x - 52) + int d"
      by (metis add.commute diff_add_cancel nonneg_int_cases diff_ge_0_iff_ge)
    have "(2::real) powi j = 2 powi (qexp x - 52) * 2 powi (int d)"
      unfolding d by (rule p2_add)
    then have "x = quantum x * of_int (m * 2 ^ d)"
      by (simp add: x quantum_qexp)
    then show ?thesis by (rule rnd_grid)
  qed
qed

lemma rnd_rep:
  assumes x: "x = of_int m * 2 powi j" and m: "\<bar>m\<bar> \<le> 2 ^ 53" and j: "- 1074 \<le> j"
  shows "rnd x = x"
proof (cases "m = 0")
  case True
  then show ?thesis by (simp add: x rnd_zero)
next
  case False
  show ?thesis
  proof (cases "0 < m")
    case True
    then show ?thesis using x m j by (intro rnd_rep_pos[of x m j]) simp_all
  next
    case False
    then have "0 < - m" "- m \<le> 2 ^ 53" using \<open>m \<noteq> 0\<close> m by simp_all
    moreover have "- x = of_int (- m) * 2 powi j" by (simp add: x)
    ultimately have "rnd (- x) = - x" using j by (intro rnd_rep_pos[of "- x" "- m" j]) simp_all
    then show ?thesis by (simp add: rnd_minus)
  qed
qed

lemma rnd_of_int: "\<bar>n\<bar> \<le> 2 ^ 53 \<Longrightarrow> rnd (of_int n) = of_int n"
  by (rule rnd_rep[of _ n 0]) simp_all

lemma rnd_error: "\<bar>rnd x - x\<bar> \<le> quantum x / 2"
proof -
  have "rnd x - x = quantum x * (of_int (rne (x / quantum x)) - x / quantum x)"
    using quantum_pos[of x] by (simp add: rnd_def right_diff_distrib)
  then have "\<bar>rnd x - x\<bar> = quantum x * \<bar>of_int (rne (x / quantum x)) - x / quantum x\<bar>"
    using quantum_pos[of x] by (simp add: abs_mult)
  also have "\<dots> \<le> quantum x * (1 / 2)"
    using rne_error[of "x / quantum x"] quantum_pos[of x] by (simp only: mult_le_cancel_left_pos)
  finally show ?thesis by simp
qed

lemma quantum_normal:
  assumes "2 powi (- 1022) \<le> \<bar>x\<bar>"
  shows "quantum x \<le> \<bar>x\<bar> * 2 powi (- 52)"
proof -
  have x: "x \<noteq> 0" using assms p2_pos[of "- 1022"] by auto
  have "2 powi (- 1022) < (2::real) powi (expo x + 1)" using assms expo_bounds[OF x] by linarith
  then have "- 1022 < expo x + 1" by (rule p2_less_cancel)
  then have q: "qexp x = expo x" by (simp add: qexp_def)
  have "quantum x = 2 powi expo x * 2 powi (- 52)"
    unfolding quantum_qexp q by (rule p2_split) simp
  moreover have "2 powi expo x * 2 powi (- 52) \<le> \<bar>x\<bar> * 2 powi (- 52)"
    using expo_bounds[OF x] p2_pos[of "- 52"] by (simp only: mult_le_cancel_right_pos)
  ultimately show ?thesis by simp
qed

lemma rnd_rel_error:
  assumes "2 powi (- 1022) \<le> \<bar>x\<bar>"
  shows "\<bar>rnd x - x\<bar> \<le> \<bar>x\<bar> * 2 powi (- 53)"
proof -
  have "\<bar>rnd x - x\<bar> \<le> quantum x / 2" by (rule rnd_error)
  also have "\<dots> \<le> \<bar>x\<bar> * 2 powi (- 52) / 2" using quantum_normal[OF assms] by simp
  also have "\<dots> = \<bar>x\<bar> * 2 powi (- 53)" by simp
  finally show ?thesis .
qed

lemma fl_Fin: "- (2 ^ 1024) < rnd x \<Longrightarrow> rnd x < 2 ^ 1024 \<Longrightarrow> fl x = Fin (rnd x)"
  by (simp add: fl_def Let_def)

lemma rnd_top: "rnd top = top"
  by (rule rnd_rep[of _ 1 1023]) (simp_all add: top_def)

lemma top_less: "top < 2 ^ 1024"
  by (simp add: top_def)

lemma fl_bounded_top:
  assumes "\<bar>x\<bar> \<le> top"
  shows "fl x = Fin (rnd x)"
proof -
  have "x \<le> top" "- top \<le> x" using assms by simp_all
  then have "rnd x \<le> rnd top" "rnd (- top) \<le> rnd x"
    by (simp_all only: rnd_mono)
  then have "rnd x \<le> top" "- top \<le> rnd x"
    by (simp_all only: rnd_minus rnd_top)
  then have "- (2 ^ 1024) < rnd x" "rnd x < 2 ^ 1024" using top_less by linarith+
  then show ?thesis by (rule fl_Fin)
qed

lemma fl_bounded: "\<bar>x\<bar> \<le> 2 ^ 1023 \<Longrightarrow> fl x = Fin (rnd x)"
  using fl_bounded_top[of x] by (simp only: top_def)

lemma fl_nonneg_cases:
  assumes "0 \<le> x"
  shows "fl x = PInf \<or> (\<exists>r. fl x = Fin r \<and> r = rnd x \<and> 0 \<le> r)"
  using rnd_nonneg[OF assms] by (auto simp: fl_def Let_def)

lemma fl_zero: "fl 0 = Fin 0"
  by (simp add: fl_def rnd_zero)

lemma fl_of_int: "\<bar>n\<bar> \<le> 2 ^ 53 \<Longrightarrow> fl (of_int n) = Fin (of_int n)"
proof -
  assume n: "\<bar>n\<bar> \<le> 2 ^ 53"
  then have r: "rnd (of_int n) = of_int n" by (rule rnd_of_int)
  have "real_of_int \<bar>n\<bar> \<le> real_of_int (2 ^ 53)" using n by (simp only: of_int_le_iff)
  then have "\<bar>real_of_int n\<bar> \<le> 2 ^ 53" by simp
  moreover have "(2::real) ^ 53 < 2 ^ 1024" by simp
  ultimately have "- (2 ^ 1024) < real_of_int n" "real_of_int n < 2 ^ 1024" by linarith+
  then show ?thesis using fl_Fin[of "of_int n"] by (simp add: r)
qed

lemma fl_of_nat: "real n \<le> 2 ^ 53 \<Longrightarrow> fl (real n) = Fin (real n)"
proof -
  assume "real n \<le> 2 ^ 53"
  then have "real_of_int (int n) \<le> real_of_int (2 ^ 53)" by simp
  then have "int n \<le> 2 ^ 53" by (simp only: of_int_le_iff)
  then have "fl (of_int (int n)) = Fin (of_int (int n))" by (intro fl_of_int) simp
  then show ?thesis by simp
qed

lemma fl_rep:
  assumes "x = of_int m * 2 powi j" and "\<bar>m\<bar> \<le> 2 ^ 53" and "- 1074 \<le> j" and "\<bar>x\<bar> \<le> 2 ^ 1023"
  shows "fl x = Fin x"
  using fl_bounded[OF assms(4)] rnd_rep[OF assms(1,2,3)] by simp

lemma fl_evalI:
  assumes "2 powi e \<le> \<bar>x\<bar>" and "\<bar>x\<bar> < 2 powi (e + 1)" and "- 1022 \<le> e" and "e \<le> 1022"
    and "r = 2 powi (e - 52) * of_int (rne (x / 2 powi (e - 52)))"
  shows "fl x = Fin r"
proof -
  have e: "expo x = e" using assms(1,2) by (rule expo_unique)
  then have q: "quantum x = 2 powi (e - 52)" using assms(3) by (simp add: quantum_def qexp_def)
  have r: "rnd x = r" by (simp add: rnd_def q assms(5))
  have "\<bar>x\<bar> < 2 powi (e + 1)" by (rule assms(2))
  also have "\<dots> \<le> 2 powi 1023" using assms(4) by (intro p2_mono) simp
  finally have "\<bar>x\<bar> \<le> 2 ^ 1023" by simp
  then show ?thesis using fl_bounded[of x] r by simp
qed

lemma fl_third: "fl (1 / 3) = Fin (6004799503160661 / 2 ^ 54)"
  by (rule fl_evalI[where e = "- 2"]) (simp_all add: rne_def)

lemma fl_tenth: "fl (1 / 10) = Fin (3602879701896397 / 2 ^ 55)"
  by (rule fl_evalI[where e = "- 4"]) (simp_all add: rne_def)

lemma fl_9000: "fl 9000 = Fin 9000"
  using fl_of_int[of 9000] by simp

lemma fl_half: "fl (1 / 2) = Fin (1 / 2)"
  by (rule fl_rep[of _ 1 "- 1"]) simp_all

lemma fl_numeral: "(numeral k :: int) \<le> 2 ^ 53 \<Longrightarrow> fl (numeral k) = Fin (numeral k)"
  using fl_of_int[of "numeral k"] by simp

lemma fl_neg_numeral: "(numeral k :: int) \<le> 2 ^ 53 \<Longrightarrow> fl (- numeral k) = Fin (- numeral k)"
  using fl_of_int[of "- numeral k"] by simp

lemma fl_one: "fl 1 = Fin 1"
  using fl_of_int[of 1] by simp

lemma fl_neg_one: "fl (- 1) = Fin (- 1)"
  using fl_of_int[of "- 1"] by simp

lemmas fl_simps = fl_zero fl_one fl_neg_one fl_numeral fl_neg_numeral

lemma fl_FinD: "fl x = Fin r \<Longrightarrow> r = rnd x"
  by (auto simp: fl_def Let_def split: if_splits)

lemma fl_not_NaN: "fl x \<noteq> NaN"
  by (simp add: fl_def Let_def)

lemma count_minus_one:
  assumes "1 \<le> N" and "real N \<le> 2 ^ 53"
  shows "js_sub (Fin (real N)) (Fin 1) = Fin (real N - 1)"
proof -
  have "real_of_int (int N) \<le> real_of_int (2 ^ 53)" using assms(2) by simp
  then have "int N \<le> 2 ^ 53" by (simp only: of_int_le_iff)
  then have "\<bar>int N - 1\<bar> \<le> 2 ^ 53" using assms(1) by simp
  then have "fl (of_int (int N - 1)) = Fin (of_int (int N - 1))" by (rule fl_of_int)
  then show ?thesis by (simp add: js_sub_def)
qed

lemma sceneIndex_value:
  assumes "1 \<le> N" and "real N \<le> 2 ^ 53" and "sceneDuration D N = Fin sd" and "0 < sd"
    and "0 \<le> t"
  shows "sceneIndex D N (Fin t) = Fin (of_int (index_of sd N t))"
proof -
  have q: "0 \<le> t / sd" using assms(4,5) by simp
  have d: "js_div (Fin t) (Fin sd) = fl (t / sd)" using assms(4) by simp
  have e: "sceneIndex D N (Fin t) = js_min (js_floor (fl (t / sd))) (Fin (real N - 1))"
    by (simp only: sceneIndex_def assms(3) d count_minus_one[OF assms(1,2)])
  from fl_nonneg_cases[OF q] show ?thesis
  proof
    assume "fl (t / sd) = PInf"
    then show ?thesis by (simp add: e index_of_def)
  next
    assume "\<exists>r. fl (t / sd) = Fin r \<and> r = rnd (t / sd) \<and> 0 \<le> r"
    then obtain r where "fl (t / sd) = Fin r" by blast
    then show ?thesis by (simp add: e index_of_def min_def)
  qed
qed

lemma index_of_range:
  assumes "1 \<le> N" and "0 < sd" and "0 \<le> t"
  shows "0 \<le> index_of sd N t \<and> index_of sd N t < int N"
proof -
  have q: "0 \<le> t / sd" using assms by simp
  show ?thesis using fl_nonneg_cases[OF q] assms(1)
    by (auto simp: index_of_def)
qed

lemma index_of_mono:
  assumes "0 < sd" and "0 \<le> t" and "t \<le> u"
  shows "index_of sd N t \<le> index_of sd N u"
proof -
  have q: "0 \<le> t / sd" "0 \<le> u / sd" "t / sd \<le> u / sd"
    using assms by (simp_all add: divide_right_mono)
  have m: "rnd (t / sd) \<le> rnd (u / sd)" using q(3) by (rule rnd_mono)
  have n: "0 \<le> rnd (t / sd)" using q(1) by (rule rnd_nonneg)
  have "\<lfloor>rnd (t / sd)\<rfloor> \<le> \<lfloor>rnd (u / sd)\<rfloor>" using m by (rule floor_mono)
  then show ?thesis using m n
    by (auto simp: index_of_def fl_def Let_def min_def)
qed

lemma index_of_zero: "1 \<le> N \<Longrightarrow> index_of sd N 0 = 0"
  by (simp add: index_of_def fl_zero)

lemma index_of_last:
  assumes "1 \<le> N" and "real N \<le> 2 ^ 53" and "0 < sd" and "real (N - 1) * sd \<le> t"
  shows "index_of sd N t = int N - 1"
proof -
  have "real (N - 1) \<le> t / sd" using assms(3,4) by (simp add: pos_le_divide_eq)
  then have a: "real_of_int (int N - 1) \<le> t / sd" using assms(1) by (simp add: of_nat_diff)
  have "real_of_int (int N) \<le> real_of_int (2 ^ 53)" using assms(2) by simp
  then have "int N \<le> 2 ^ 53" by (simp only: of_int_le_iff)
  then have "\<bar>int N - 1\<bar> \<le> 2 ^ 53" using assms(1) by simp
  then have "rnd (of_int (int N - 1)) = of_int (int N - 1)" by (rule rnd_of_int)
  then have "real_of_int (int N - 1) \<le> rnd (t / sd)" using rnd_mono[OF a] by simp
  then have "int N - 1 \<le> \<lfloor>rnd (t / sd)\<rfloor>" by (simp only: le_floor_iff)
  then show ?thesis by (auto simp: index_of_def fl_def Let_def)
qed

lemma last_slice_nonempty:
  assumes "1 \<le> N" and "real N \<le> 2 ^ 53" and "0 < D" and "sceneDuration D N = Fin sd"
    and "2 powi (- 1022) \<le> D / real N"
  shows "real (N - 1) * sd < D"
proof -
  define x where "x = D / real N"
  have xpos: "0 < x" using assms(1,3) by (simp add: x_def)
  have "js_div (Fin D) (Fin (real N)) = fl x" using assms(1) by (simp add: x_def)
  then have sdeq: "sd = rnd x" using assms(4) by (simp add: sceneDuration_def fl_FinD)
  have ax: "\<bar>x\<bar> = x" using xpos by simp
  have "2 powi (- 1022) \<le> x" unfolding x_def by (rule assms(5))
  then have "2 powi (- 1022) \<le> \<bar>x\<bar>" by (simp only: ax)
  then have "\<bar>rnd x - x\<bar> \<le> \<bar>x\<bar> * 2 powi (- 53)" by (rule rnd_rel_error)
  then have err: "\<bar>rnd x - x\<bar> \<le> x * 2 powi (- 53)" by (simp only: ax)
  have sd: "sd \<le> x + x * 2 powi (- 53)" using err sdeq by linarith
  have n0: "0 \<le> real (N - 1)" by simp
  have "real (N - 1) * sd \<le> real (N - 1) * (x + x * 2 powi (- 53))"
    using sd n0 by (rule mult_left_mono)
  also have "\<dots> = x * (real (N - 1) + real (N - 1) * 2 powi (- 53))"
    by (simp add: algebra_simps)
  also have "\<dots> < x * real N"
  proof -
    have "real (N - 1) < 2 ^ 53" using assms(1,2) by (simp add: of_nat_diff)
    then have "real (N - 1) * 2 powi (- 53) < 1" by simp
    then have "real (N - 1) + real (N - 1) * 2 powi (- 53) < real N"
      using assms(1) by (simp add: of_nat_diff)
    then show ?thesis using xpos by (simp only: mult_less_cancel_left_pos)
  qed
  also have "\<dots> = D" using assms(1) by (simp add: x_def)
  finally show ?thesis .
qed

lemma sceneDuration_1_3: "sceneDuration 1 3 = Fin (6004799503160661 / 2 ^ 54)"
  by (simp add: sceneDuration_def fl_third)

lemma rnd_fixed_grid: "rnd x = x \<Longrightarrow> x = quantum x * of_int (rne (x / quantum x))"
  by (simp add: rnd_def)

lemma below_binade:
  assumes "0 < x"
  shows "x < quantum x * 2 ^ 53"
proof -
  have x: "x \<noteq> 0" using assms by simp
  have "x < 2 powi (expo x + 1)" using expo_bounds[OF x] assms by simp
  also have "\<dots> \<le> 2 powi (qexp x + 1)" by (rule p2_mono) (simp add: qexp_def)
  also have "\<dots> = 2 powi (qexp x - 52) * 2 powi 53" by (rule p2_split) simp
  finally show ?thesis by (simp add: quantum_qexp)
qed

lemma rnd_idem_nonneg:
  assumes "0 \<le> x"
  shows "rnd (rnd x) = rnd x"
proof -
  have j: "- 1074 \<le> qexp x - 52" by (simp add: qexp_def)
  have r: "rnd x = of_int (rne (x / quantum x)) * 2 powi (qexp x - 52)"
    by (simp add: rnd_def quantum_qexp)
  have "0 \<le> x / quantum x" using assms quantum_pos[of x] by simp
  then have lo: "0 \<le> rne (x / quantum x)" using rne_ge[of 0] by simp
  have hi: "rne (x / quantum x) \<le> 2 ^ 53"
  proof (cases "x = 0")
    case True
    then show ?thesis by (simp add: rne_def)
  next
    case False
    then have "0 < x" using assms by simp
    then have "x / quantum x \<le> 2 ^ 53"
      using below_binade[of x] quantum_pos[of x] by (simp add: pos_divide_le_eq mult.commute)
    then have "x / quantum x \<le> of_int (2 ^ 53)" by simp
    then show ?thesis by (rule rne_le)
  qed
  have "\<bar>rne (x / quantum x)\<bar> \<le> 2 ^ 53" using lo hi by simp
  then show ?thesis using rnd_rep[OF r _ j] by simp
qed

lemma rnd_idem: "rnd (rnd x) = rnd x"
proof (cases "0 \<le> x")
  case True
  then show ?thesis by (rule rnd_idem_nonneg)
next
  case False
  then have "rnd (rnd (- x)) = rnd (- x)" by (intro rnd_idem_nonneg) simp
  then show ?thesis by (simp add: rnd_minus)
qed

lemma rnd_below_one: "rnd (1 - 2 powi (- 53)) = 1 - 2 powi (- 53)"
  by (rule rnd_rep[of _ "2 ^ 53 - 1" "- 53"]) simp_all

lemma remainder_ratio:
  assumes t: "rnd t = t" "0 \<le> t" and s: "rnd s = s" "0 < s"
  shows "(t - s * of_int \<lfloor>t / s\<rfloor>) / s \<le> 1 - 2 powi (- 53)"
proof -
  define k where "k = \<lfloor>t / s\<rfloor>"
  define rem where "rem = t - s * of_int k"
  have kb: "of_int k \<le> t / s" "t / s < of_int k + 1" unfolding k_def by linarith+
  have rem_lt: "rem < s"
  proof -
    have "t < (of_int k + 1) * s" using kb(2) s(2) by (simp add: pos_divide_less_eq)
    then show ?thesis by (simp add: rem_def algebra_simps)
  qed
  define qs where "qs = quantum s"
  define ms where "ms = rne (s / quantum s)"
  have qs: "0 < qs" by (simp add: qs_def quantum_pos)
  have sg: "s = qs * of_int ms" unfolding qs_def ms_def using s(1) by (rule rnd_fixed_grid)
  have s53: "s \<le> qs * 2 ^ 53" using below_binade[OF s(2)] by (simp add: qs_def)
  have small: "s * 2 powi (- 53) \<le> qs"
  proof -
    have "s * 2 powi (- 53) \<le> (qs * 2 ^ 53) * 2 powi (- 53)"
      using s53 p2_pos[of "- 53"] by (simp only: mult_le_cancel_right_pos)
    then show ?thesis by simp
  qed
  have goal_from: "rem \<le> s - qs \<Longrightarrow> rem / s \<le> 1 - 2 powi (- 53)"
  proof -
    assume "rem \<le> s - qs"
    then have "rem \<le> s - s * 2 powi (- 53)" using small by linarith
    then have "rem \<le> (1 - 2 powi (- 53)) * s" by (simp add: algebra_simps)
    then show ?thesis using s(2) by (simp add: pos_divide_le_eq)
  qed
  show ?thesis
  proof (cases "t = 0")
    case True
    then show ?thesis by simp
  next
    case False
    then have tpos: "0 < t" using t(2) by simp
    define qt where "qt = quantum t"
    define mt where "mt = rne (t / quantum t)"
    have tg: "t = qt * of_int mt" unfolding qt_def mt_def using t(1) by (rule rnd_fixed_grid)
    show ?thesis
    proof (cases "qexp s \<le> qexp t")
      case True
      then obtain d where d: "qexp t - 52 = (qexp s - 52) + int d"
        by (metis add.commute diff_add_cancel nonneg_int_cases diff_ge_0_iff_ge diff_right_mono)
      have "qt = qs * 2 ^ d"
        unfolding qt_def qs_def quantum_qexp d using p2_add[of "qexp s - 52" "int d"] by simp
      then have "t = qs * of_int (mt * 2 ^ d)" using tg by simp
      then have "rem = qs * of_int (mt * 2 ^ d - k * ms)"
        unfolding rem_def using sg by (simp add: algebra_simps)
      then obtain c :: int where c: "rem = qs * of_int c" by blast
      have "qs * of_int c < qs * of_int ms" using rem_lt c sg by simp
      then have "real_of_int c < real_of_int ms" using qs by (simp only: mult_less_cancel_left_pos)
      then have "c < ms" by (simp only: of_int_less_iff)
      then have "c \<le> ms - 1" by simp
      then have "real_of_int c \<le> real_of_int (ms - 1)" by (simp only: of_int_le_iff)
      then have "qs * real_of_int c \<le> qs * real_of_int (ms - 1)"
        using qs by (simp only: mult_le_cancel_left_pos)
      then have "rem \<le> s - qs" using c sg by (simp add: algebra_simps)
      then have "rem / s \<le> 1 - 2 powi (- 53)" by (rule goal_from)
      then show ?thesis by (simp add: rem_def k_def)
    next
      case False
      then have lt: "qexp t < qexp s" by simp
      have "- 1022 \<le> qexp t" by (simp add: qexp_def)
      then have es: "qexp s = expo s"
        using lt by (auto simp: qexp_def max_def split: if_splits)
      have s0: "s \<noteq> 0" using s(2) by simp
      have slow: "2 powi (qexp s) \<le> s" using expo_bounds[OF s0] s(2) by (simp add: es)
      have qtpos: "0 < qt" by (simp add: qt_def quantum_pos)
      have "t < qt * 2 ^ 53" using below_binade[OF tpos] by (simp only: qt_def)
      then have "qt * of_int mt < qt * 2 ^ 53" using tg by simp
      then have "real_of_int mt < 2 ^ 53" using qtpos by (simp only: mult_less_cancel_left_pos)
      then have "real_of_int mt < real_of_int (2 ^ 53)" by simp
      then have "mt < 2 ^ 53" by (simp only: of_int_less_iff)
      then have "mt \<le> 2 ^ 53 - 1" by simp
      then have "real_of_int mt \<le> real_of_int (2 ^ 53 - 1)" by (simp only: of_int_le_iff)
      then have "qt * real_of_int mt \<le> qt * real_of_int (2 ^ 53 - 1)"
        using qtpos by (simp only: mult_le_cancel_left_pos)
      then have tup: "t \<le> qt * 2 ^ 53 - qt" using tg by (simp add: algebra_simps)
      have "qt * 2 ^ 53 = 2 powi (qexp t + 1)"
      proof -
        have "(2::real) powi (qexp t + 1) = 2 powi (qexp t - 52) * 2 powi 53"
          by (rule p2_split) simp
        then show ?thesis by (simp add: qt_def quantum_qexp)
      qed
      moreover have "(2::real) powi (qexp t + 1) \<le> 2 powi (qexp s)"
        using lt by (intro p2_mono) simp
      ultimately have b: "qt * 2 ^ 53 \<le> s" using slow by linarith
      have tlt: "t < s" using tup b qtpos by linarith
      have "0 \<le> t / s" "t / s < 1" using tlt t(2) s(2) by simp_all
      then have k0: "k = 0" unfolding k_def by (simp add: floor_unique)
      have "qt = (qt * 2 ^ 53) * 2 powi (- 53)" by simp
      then have "t \<le> (qt * 2 ^ 53) - (qt * 2 ^ 53) * 2 powi (- 53)" using tup by simp
      also have "\<dots> = (qt * 2 ^ 53) * (1 - 2 powi (- 53))" by (simp add: algebra_simps)
      also have "\<dots> \<le> s * (1 - 2 powi (- 53))"
        using b by (intro mult_right_mono) simp_all
      finally have "t / s \<le> 1 - 2 powi (- 53)" using s(2) by (simp add: pos_divide_le_eq mult.commute)
      then show ?thesis using k0 by (simp add: k_def)
    qed
  qed
qed

lemma sceneDuration_FinD:
  assumes "sceneDuration D N = Fin sd"
  shows "rnd sd = sd"
proof (cases "N = 0")
  case True
  then show ?thesis using assms by (simp add: sceneDuration_def split: if_splits)
next
  case False
  then have "sceneDuration D N = fl (D / real N)" by (simp add: sceneDuration_def)
  then have "sd = rnd (D / real N)" using assms by (simp add: fl_FinD)
  then show ?thesis by (simp add: rnd_idem)
qed

lemma sceneProgress_value:
  assumes "sceneDuration D N = Fin sd" and "0 < sd" and "0 \<le> t"
  shows "sceneProgress D N (Fin t) = fl ((t - sd * of_int \<lfloor>t / sd\<rfloor>) / sd)"
proof -
  have "0 \<le> t / sd" using assms(2,3) by simp
  then have "trunc (t / sd) = \<lfloor>t / sd\<rfloor>" by (simp add: trunc_def)
  then show ?thesis using assms(2)
    by (simp add: sceneProgress_def timeInScene_def assms(1))
qed

lemma remainder_nonneg:
  fixes s t :: real
  assumes "0 < s"
  shows "0 \<le> (t - s * of_int \<lfloor>t / s\<rfloor>) / s"
proof -
  have "real_of_int \<lfloor>t / s\<rfloor> \<le> t / s" by linarith
  then have "real_of_int \<lfloor>t / s\<rfloor> * s \<le> t" using assms by (simp only: pos_le_divide_eq)
  then show ?thesis using assms by (simp add: mult.commute)
qed

lemma below_one_less: "1 - 2 powi (- 53) < (1::real)"
  using p2_pos[of "- 53"] by linarith

lemma fl_unit_interval:
  assumes "0 \<le> x" and "x \<le> 1 - 2 powi (- 53)"
  shows "fl x = Fin (rnd x) \<and> 0 \<le> rnd x \<and> rnd x < 1"
proof -
  have lo: "0 \<le> rnd x" using assms(1) by (rule rnd_nonneg)
  have "rnd x \<le> rnd (1 - 2 powi (- 53))" using assms(2) by (rule rnd_mono)
  then have hi: "rnd x \<le> 1 - 2 powi (- 53)" by (simp only: rnd_below_one)
  then have lt: "rnd x < 1" using below_one_less by linarith
  have "(1::real) < 2 ^ 1024" by simp
  then have "- (2 ^ 1024) < rnd x" "rnd x < 2 ^ 1024" using lo lt by linarith+
  then have "fl x = Fin (rnd x)" by (rule fl_Fin)
  then show ?thesis using lo lt by simp
qed

lemma sceneDuration_1_10: "sceneDuration 1 10 = Fin (3602879701896397 / 2 ^ 55)"
  by (simp add: sceneDuration_def fl_tenth)

lemma fl_progress_half:
  "fl (900719925474099 / 2 ^ 53 / (3602879701896397 / 2 ^ 55)) = Fin (4503599627370495 / 2 ^ 52)"
  by (rule fl_evalI[where e = "- 1"]) (simp_all add: rne_def)












lemma run_Some: "run (Some c, s) evs = foldl (step c) s evs"
  by (simp add: run_def)

lemma draw_result: "result (draw c s now) = result s"
  by (simp add: draw_def Let_def split: option.splits)

lemma draw_chunks: "chunks (draw c s now) = chunks s"
  by (simp add: draw_def Let_def split: option.splits)

lemma step_settled: "result s \<noteq> Pending \<Longrightarrow> result (step c s ev) = result s"
  by (cases ev) (simp_all add: settle_def Let_def draw_result)

lemma run_settled: "result s \<noteq> Pending \<Longrightarrow> result (foldl (step c) s evs) = result s"
  by (induction evs arbitrary: s) (simp_all add: step_settled)

lemma step_quiet:
  "\<not> isSignal ev \<Longrightarrow> result (step c s ev) = result s \<and> chunks (step c s ev) = chunks s @ dataOf [ev]"
  by (cases ev) (simp_all add: draw_result draw_chunks)

lemma dataOf_append: "dataOf (xs @ ys) = dataOf xs @ dataOf ys"
  by (induction xs rule: dataOf.induct) simp_all

lemma run_quiet:
  "\<forall>ev \<in> set evs. \<not> isSignal ev \<Longrightarrow>
     result (foldl (step c) s evs) = result s \<and> chunks (foldl (step c) s evs) = chunks s @ dataOf evs"
proof (induction evs arbitrary: s)
  case Nil
  then show ?case by simp
next
  case (Cons ev evs)
  have q: "\<not> isSignal ev" using Cons.prems by simp
  have "dataOf (ev # evs) = dataOf [ev] @ dataOf evs"
    using dataOf_append[of "[ev]" evs] by simp
  then show ?case using Cons step_quiet[OF q, of c s] by simp
qed

lemma setup_pending:
  "assembleVideo h images D = (Some c, s0) \<Longrightarrow> result s0 = Pending \<and> chunks s0 = []"
  by (auto simp: assembleVideo_def initial_def split: if_splits option.splits)

lemma first_signal:
  "\<exists>ev \<in> set evs. isSignal ev \<Longrightarrow>
     \<exists>pre ev post. evs = pre @ ev # post \<and> isSignal ev \<and> (\<forall>x \<in> set pre. \<not> isSignal x)"
proof (induction evs)
  case Nil
  then show ?case by simp
next
  case (Cons a evs)
  show ?case
  proof (cases "isSignal a")
    case True
    then have "a # evs = [] @ a # evs \<and> isSignal a \<and> (\<forall>x \<in> set []. \<not> isSignal x)" by simp
    then show ?thesis by blast
  next
    case False
    then obtain pre ev post where
      "evs = pre @ ev # post" "isSignal ev" "\<forall>x \<in> set pre. \<not> isSignal x"
      using Cons by auto
    then have "a # evs = (a # pre) @ ev # post \<and> isSignal ev \<and> (\<forall>x \<in> set (a # pre). \<not> isSignal x)"
      using False by simp
    then show ?thesis by blast
  qed
qed

lemma encoder_error_rejects_aux:
  assumes "result (run (Some c, s) pre) = Pending"
  shows "result (run (Some c, s) (pre @ Errored e # post)) = Rejected (RecorderErrorEvent e)"
proof -
  let ?s = "foldl (step c) s pre"
  have p: "result ?s = Pending" using assms by (simp add: run_Some)
  have "result (step c ?s (Errored e)) = Rejected (RecorderErrorEvent e)"
    using p by (simp add: settle_def)
  then have "result (foldl (step c) (step c ?s (Errored e)) post) = Rejected (RecorderErrorEvent e)"
    by (simp add: run_settled)
  then show ?thesis by (simp add: run_Some)
qed

lemmas evals = assembleVideo_def sampleHost_def sampleLoad_def sampleElement_def png_def
  initial_def run_def settle_def newBlob_def

lemma setup_closure:
  assumes "assembleVideo h images D = (Some c, s0)"
  shows "loadAll (loadImage h) images = Some (imageElements c) \<and> audioDuration c = D
       \<and> imageCount c = length images \<and> startTime c = performanceNow h
       \<and> s0 = initial\<lparr>effects := [AudioStarted, RecorderStarted], framePending := True\<rparr>"
  using assms by (auto simp: assembleVideo_def split: if_splits option.splits)

lemma loadAll_map:
  "loadAll load images = Some els \<Longrightarrow> els = map (\<lambda>img. the (load img)) images"
  by (induction images arbitrary: els) (auto split: option.splits)

lemma loadAll_total:
  "\<forall>img \<in> set images. load img \<noteq> None \<Longrightarrow>
     loadAll load images = Some (map (\<lambda>img. the (load img)) images)"
  by (induction images) auto

lemma loadAll_Some_iff:
  "(loadAll load images \<noteq> None) = (\<forall>img \<in> set images. load img \<noteq> None)"
  by (induction images) (auto split: option.splits)

lemma sample_setup:
  "assembleVideo sampleHost [png ''a'', png ''b'', png ''c''] 9 =
     (Some \<lparr> audioDuration = 9, imageCount = 3,
              imageElements = [sampleElement, sampleElement, sampleElement], startTime = 5000 \<rparr>,
      initial\<lparr>effects := [AudioStarted, RecorderStarted], framePending := True\<rparr>)"
  by (simp add: assembleVideo_def sampleHost_def sampleLoad_def png_def)

lemma element_Nil: "element [] i = None"
  by (cases i) (simp_all add: element_def)

lemma draw_no_images:
  "imageElements c = [] \<Longrightarrow> drawn (draw c s now) = drawn s"
  by (simp add: draw_def Let_def drawn_def element_Nil)

lemma step_no_images:
  "imageElements c = [] \<Longrightarrow> drawn (step c s ev) = drawn s"
  by (cases ev) (simp_all add: draw_no_images, simp_all add: drawn_def Let_def)

lemma run_no_images:
  "imageElements c = [] \<Longrightarrow> drawn (foldl (step c) s evs) = drawn s"
  by (induction evs arbitrary: s) (simp_all add: step_no_images)

lemma sceneIndex_no_images: "0 < D \<Longrightarrow> sceneIndex D 0 (Fin t) = Fin (- 1)"
  by (simp add: sceneIndex_def sceneDuration_def js_sub_def fl_simps)

lemma elapsed_3s:
  "elapsedTime \<lparr> audioDuration = 9, imageCount = n, imageElements = els, startTime = 5000 \<rparr> 8000
     = Fin 3"
  by (simp add: elapsedTime_def js_sub_def fl_simps)

lemma elapsed_early:
  "elapsedTime \<lparr> audioDuration = 9, imageCount = 3,
       imageElements = [sampleElement, sampleElement, sampleElement], startTime = 5000 \<rparr> (9999 / 2)
     = Fin (- (1152921504606847 / 2 ^ 61))"
proof -
  have "fl (9999 / 2 + - 5000) = Fin (- (1 / 2))"
    by (rule fl_evalI[where e = "- 1"]) (simp_all add: rne_def)
  then have s: "js_sub (Fin (9999 / 2)) (Fin 5000) = Fin (- (1 / 2))"
    by (simp only: js_sub_def js_neg.simps js_add.simps)
  have "fl (- (1 / 2) / 1000) = Fin (- (1152921504606847 / 2 ^ 61))"
    by (rule fl_evalI[where e = "- 11"]) (simp_all add: rne_def)
  moreover have "(1000::real) \<noteq> 0" by simp
  ultimately show ?thesis by (simp only: elapsedTime_def closure.simps s js_div.simps if_False)
qed

lemma index_early: "sceneIndex 9 3 (Fin (- (1152921504606847 / 2 ^ 61))) = Fin (- 1)"
proof -
  have sd: "sceneDuration 9 3 = Fin 3" by (simp add: sceneDuration_def fl_simps)
  have "fl (- (1152921504606847 / 2 ^ 61) / 3) = Fin (- (6148914691236517 / 2 ^ 65))"
    by (rule fl_evalI[where e = "- 13"]) (simp_all add: rne_def)
  moreover have "(3::real) \<noteq> 0" by simp
  ultimately have q: "js_div (Fin (- (1152921504606847 / 2 ^ 61))) (Fin 3)
      = Fin (- (6148914691236517 / 2 ^ 65))"
    by (simp only: js_div.simps if_False)
  have m: "js_sub (Fin (real 3)) (Fin 1) = Fin 2" by (simp add: js_sub_def fl_simps)
  show ?thesis by (simp only: sceneIndex_def sd q m) simp
qed

lemma tick_300ms:
  "js_div (js_sub (Fin 5300) (Fin 5000)) (Fin 1000) = Fin (5404319552844595 / 2 ^ 54)
   \<and> sceneIndex 1 10 (Fin (5404319552844595 / 2 ^ 54)) = Fin 2
   \<and> scale (sceneProgress 1 10 (Fin (5404319552844595 / 2 ^ 54))) = Fin (2476979795053773 / 2 ^ 51)
   \<and> spec_sceneIndex 1 10 (3 / 10) = 3"
proof -
  have "fl (300 / 1000) = Fin (5404319552844595 / 2 ^ 54)"
    by (rule fl_evalI[where e = "- 2"]) (simp_all add: rne_def)
  then have e: "js_div (js_sub (Fin 5300) (Fin 5000)) (Fin 1000) = Fin (5404319552844595 / 2 ^ 54)"
    by (simp add: js_sub_def fl_simps)
  have "fl (5404319552844595 / 2 ^ 54 / (3602879701896397 / 2 ^ 55)) = Fin (6755399441055743 / 2 ^ 51)"
    by (rule fl_evalI[where e = 1]) (simp_all add: rne_def)
  moreover have "(3602879701896397 / 2 ^ 55 :: real) \<noteq> 0" by simp
  ultimately have q: "js_div (Fin (5404319552844595 / 2 ^ 54)) (Fin (3602879701896397 / 2 ^ 55))
      = Fin (6755399441055743 / 2 ^ 51)"
    by (simp only: js_div.simps if_False)
  have m: "js_sub (Fin (real 10)) (Fin 1) = Fin 9" by (simp add: js_sub_def fl_simps)
  have i: "sceneIndex 1 10 (Fin (5404319552844595 / 2 ^ 54)) = Fin 2"
    by (simp only: sceneIndex_def sceneDuration_1_10 q m) simp
  have "trunc (5404319552844595 / 2 ^ 54 / (3602879701896397 / 2 ^ 55)) = 2" by (simp add: trunc_def)
  then have r: "js_mod (Fin (5404319552844595 / 2 ^ 54)) (Fin (3602879701896397 / 2 ^ 55))
      = Fin (900719925474099 / 2 ^ 53)"
    by simp
  have p: "sceneProgress 1 10 (Fin (5404319552844595 / 2 ^ 54)) = Fin (4503599627370495 / 2 ^ 52)"
    unfolding sceneProgress_def timeInScene_def sceneDuration_1_10 r
    using fl_progress_half by simp
  have "fl (4503599627370495 / 2 ^ 52 * (3602879701896397 / 2 ^ 55)) = Fin (900719925474099 / 2 ^ 53)"
    by (rule fl_evalI[where e = "- 4"]) (simp_all add: rne_def)
  then have pc: "js_mul (Fin (4503599627370495 / 2 ^ 52)) (fl (1 / 10)) = Fin (900719925474099 / 2 ^ 53)"
    by (simp only: fl_tenth js_mul.simps)
  have "fl (1 + 900719925474099 / 2 ^ 53) = Fin (2476979795053773 / 2 ^ 51)"
    by (rule fl_evalI[where e = 0]) (simp_all add: rne_def)
  then have s: "scale (sceneProgress 1 10 (Fin (5404319552844595 / 2 ^ 54)))
      = Fin (2476979795053773 / 2 ^ 51)"
    by (simp only: p scale_def pc js_add.simps)
  have "spec_sceneIndex 1 10 (3 / 10) = 3" by (simp add: spec_sceneIndex_def)
  then show ?thesis using e i s by simp
qed

section \<open>The claims\<close>

text \<open>
  Claim C1, as the code has it. The quotients \<^verbatim>\<open>audioDuration / images.length\<close> and
  \<^verbatim>\<open>elapsedTime / sceneDuration\<close> are rounded to doubles, so the scene index is not
  \<open>min(floor(t / (D/N)), N-1)\<close> over the reals: the evaluation after the witness has
  \<open>D = 1\<close>, \<open>N = 3\<close> and the double \<open>t = 0.6666666666666666\<close>, where the code gives
  \<open>2\<close> and the real formula \<open>1\<close>. What holds, for \<open>N \<ge> 1\<close> images, \<open>D > 0\<close>, a
  computed scene duration \<open>sd\<close> that is positive and finite, and every elapsed time
  \<open>t \<ge> 0\<close>: the index is \<open>min(floor(q), N-1)\<close> for the rounded quotient \<open>q\<close> of
  \<open>t\<close> by \<open>sd\<close>; it lies in \<open>[0, N)\<close>, does not decrease with \<open>t\<close>, is \<open>0\<close> at
  \<open>t = 0\<close>, and is \<open>N-1\<close> from \<open>(N-1) * sd\<close> on, which is below \<open>D\<close> when
  \<open>D/N\<close> is in the normal range of the doubles; so the index is \<open>N-1\<close> as \<open>t\<close>
  approaches \<open>D\<close> from below.
\<close>

theorem sceneIndex_rounded:
  assumes "1 \<le> N" and "real N \<le> 2 ^ 53" and "0 < D"
    and "sceneDuration D N = Fin sd" and "0 < sd"
  shows "(\<forall>t. 0 \<le> t \<longrightarrow>
            sceneIndex D N (Fin t) = Fin (of_int (index_of sd N t))
          \<and> 0 \<le> index_of sd N t \<and> index_of sd N t < int N)
       \<and> (\<forall>t u. 0 \<le> t \<and> t \<le> u \<longrightarrow>
            \<not> js_less (sceneIndex D N (Fin u)) (sceneIndex D N (Fin t)))
       \<and> sceneIndex D N (Fin 0) = Fin 0
       \<and> (\<forall>t. real (N - 1) * sd \<le> t \<longrightarrow> sceneIndex D N (Fin t) = Fin (real N - 1))
       \<and> (2 powi (- 1022) \<le> D / real N \<longrightarrow> real (N - 1) * sd < D)"
proof (intro conjI allI impI)
  fix t :: real assume "0 \<le> t"
  then show "sceneIndex D N (Fin t) = Fin (of_int (index_of sd N t))"
    by (rule sceneIndex_value[OF assms(1,2,4,5)])
next
  fix t :: real assume "0 \<le> t"
  then show "0 \<le> index_of sd N t" "index_of sd N t < int N"
    using index_of_range[OF assms(1,5), of t] by simp_all
next
  fix t u :: real assume a: "0 \<le> t \<and> t \<le> u"
  then have "index_of sd N t \<le> index_of sd N u"
    using index_of_mono[OF assms(5), of t u] by simp
  moreover have "sceneIndex D N (Fin t) = Fin (of_int (index_of sd N t))"
    "sceneIndex D N (Fin u) = Fin (of_int (index_of sd N u))"
    using a by (simp_all add: sceneIndex_value[OF assms(1,2,4,5)])
  ultimately show "\<not> js_less (sceneIndex D N (Fin u)) (sceneIndex D N (Fin t))" by simp
next
  show "sceneIndex D N (Fin 0) = Fin 0"
    using sceneIndex_value[OF assms(1,2,4,5), of 0] index_of_zero[OF assms(1), of sd] by simp
next
  fix t assume a: "real (N - 1) * sd \<le> t"
  have "0 \<le> real (N - 1) * sd" using assms(5) by simp
  then have "0 \<le> t" using a by linarith
  then show "sceneIndex D N (Fin t) = Fin (real N - 1)"
    using sceneIndex_value[OF assms(1,2,4,5), of t] index_of_last[OF assms(1,2,5) a] by simp
next
  assume "2 powi (- 1022) \<le> D / real N"
  then show "real (N - 1) * sd < D"
    by (rule last_slice_nonempty[OF assms(1,2,3,4)])
qed

theorem sceneIndex_rounded_witness:
  "sceneIndex 1 3 (Fin 0) = Fin 0
   \<and> sceneIndex 1 3 (Fin (6004799503160661 / 2 ^ 53)) = Fin 2
   \<and> 2 * (6004799503160661 / 2 ^ 54) < (1::real)"
proof -
  have n: "(1::nat) \<le> 3" "real (3::nat) \<le> 2 ^ 53" by simp_all
  have d: "(0::real) < 1" by simp
  have s: "(0::real) < 6004799503160661 / 2 ^ 54" by simp
  note T = sceneIndex_rounded[OF n d sceneDuration_1_3 s]
  have a: "sceneIndex 1 3 (Fin 0) = Fin 0" using T by blast
  have "real (3 - 1) * (6004799503160661 / 2 ^ 54) \<le> (6004799503160661 / 2 ^ 53 :: real)" by simp
  then have b: "sceneIndex 1 3 (Fin (6004799503160661 / 2 ^ 53)) = Fin (real 3 - 1)"
    using T by blast
  have "(2::real) powi (- 1022) \<le> 1 / real (3::nat)"
    using p2_mono[of "- 1022" "- 2"] by simp
  then have "real (3 - 1) * (6004799503160661 / 2 ^ 54) < (1::real)" using T by blast
  then show ?thesis using a b by simp
qed

theorem sceneIndex_differs_from_real_formula:
  "sceneIndex 1 3 (Fin (6004799503160661 / 2 ^ 53)) = Fin 2
   \<and> spec_sceneIndex 1 3 (6004799503160661 / 2 ^ 53) = 1"
  by (simp add: sceneIndex_def sceneDuration_1_3 js_sub_def fl_simps spec_sceneIndex_def)

text \<open>
  Claim C2, as the code has it. The progress is the rounded quotient of the exact
  remainder \<^verbatim>\<open>elapsedTime % sceneDuration\<close> by the rounded scene duration. For a
  computed scene duration \<open>sd\<close> that is positive and finite and every double
  \<open>t \<ge> 0\<close> it lies in \<open>[0, 1)\<close>, and it is \<open>0\<close> at every exact multiple \<open>k * sd\<close>
  of the computed scene duration. At a nominal boundary \<open>k * D/N\<close> that the rounding of
  \<open>D/N\<close> misses it is not: the evaluation after the theorem has \<open>D = 1\<close>, \<open>N = 10\<close>,
  \<open>t = 0.5\<close>, the boundary \<open>k = 5\<close>, where the code gives \<open>0.9999999999999998\<close>.
\<close>

theorem sceneProgress_rounded:
  assumes "sceneDuration D N = Fin sd" and "0 < sd"
  shows "(\<forall>t. 0 \<le> t \<and> fl t = Fin t \<longrightarrow>
            (\<exists>p. sceneProgress D N (Fin t) = Fin p \<and> 0 \<le> p \<and> p < 1
               \<and> p = rnd ((t - sd * of_int \<lfloor>t / sd\<rfloor>) / sd)))
       \<and> (\<forall>k::nat. sceneProgress D N (Fin (real k * sd)) = Fin 0)"
proof (intro conjI allI impI)
  fix t :: real assume a: "0 \<le> t \<and> fl t = Fin t"
  then have t: "rnd t = t" "0 \<le> t" using fl_FinD[of t t] by simp_all
  have s: "rnd sd = sd" using assms(1) by (rule sceneDuration_FinD)
  define x where "x = (t - sd * of_int \<lfloor>t / sd\<rfloor>) / sd"
  have "0 \<le> x" unfolding x_def using assms(2) by (rule remainder_nonneg)
  moreover have "x \<le> 1 - 2 powi (- 53)"
    unfolding x_def using t s assms(2) by (rule remainder_ratio)
  ultimately have "fl x = Fin (rnd x) \<and> 0 \<le> rnd x \<and> rnd x < 1" by (rule fl_unit_interval)
  moreover have "sceneProgress D N (Fin t) = fl x"
    unfolding x_def using assms t(2) by (rule sceneProgress_value)
  ultimately show "\<exists>p. sceneProgress D N (Fin t) = Fin p \<and> 0 \<le> p \<and> p < 1
      \<and> p = rnd ((t - sd * of_int \<lfloor>t / sd\<rfloor>) / sd)"
    by (simp add: x_def)
next
  fix k :: nat
  have "0 \<le> real k * sd" using assms(2) by simp
  then have "sceneProgress D N (Fin (real k * sd))
      = fl ((real k * sd - sd * of_int \<lfloor>real k * sd / sd\<rfloor>) / sd)"
    by (rule sceneProgress_value[OF assms])
  moreover have "real k * sd / sd = real k" using assms(2) by simp
  ultimately show "sceneProgress D N (Fin (real k * sd)) = Fin 0"
    by (simp add: fl_zero)
qed

theorem sceneProgress_rounded_witness:
  "sceneProgress 1 10 (Fin (real 5 * (3602879701896397 / 2 ^ 55))) = Fin 0
   \<and> js_less (sceneProgress 1 10 (Fin (1 / 2))) (Fin 1)"
proof -
  have s: "(0::real) < 3602879701896397 / 2 ^ 55" by simp
  note T = sceneProgress_rounded[OF sceneDuration_1_10 s]
  have a: "sceneProgress 1 10 (Fin (real 5 * (3602879701896397 / 2 ^ 55))) = Fin 0"
    using T by blast
  have h: "(0::real) \<le> 1 / 2 \<and> fl (1 / 2) = Fin (1 / 2)" by (simp add: fl_half)
  from T[THEN conjunct1, rule_format, OF h]
  obtain p where "sceneProgress 1 10 (Fin (1 / 2)) = Fin p" "p < 1" by blast
  then have "js_less (sceneProgress 1 10 (Fin (1 / 2))) (Fin 1)" by simp
  then show ?thesis using a by (rule conjI[rotated])
qed

theorem sceneProgress_near_one_at_boundary:
  "sceneProgress 1 10 (Fin (1 / 2)) = Fin (4503599627370495 / 2 ^ 52)
   \<and> real 5 * (1 / real 10) = 1 / 2
   \<and> spec_sceneProgress 1 10 (1 / 2) = 0"
proof -
  have "trunc (1 / 2 / (3602879701896397 / 2 ^ 55)) = 4" by (simp add: trunc_def)
  then have "js_mod (Fin (1 / 2)) (Fin (3602879701896397 / 2 ^ 55)) = Fin (900719925474099 / 2 ^ 53)"
    by simp
  then have "sceneProgress 1 10 (Fin (1 / 2)) = Fin (4503599627370495 / 2 ^ 52)"
    using fl_progress_half by (simp add: sceneProgress_def timeInScene_def sceneDuration_1_10)
  moreover have "spec_sceneProgress 1 10 (1 / 2) = 0"
    by (simp add: spec_sceneProgress_def spec_mod_def)
  ultimately show ?thesis by simp
qed




text \<open>
  Claim C4 says that an image that fails to decode makes \<^verbatim>\<open>assembleVideo\<close> reject its
  promise before the encoder is started. On three images whose second one fails to load,
  the code starts no encoder, keeps no chunk and builds no blob, but it never calls
  \<^verbatim>\<open>reject\<close>: the rejection of \<^verbatim>\<open>Promise.all\<close> is thrown inside the \<^verbatim>\<open>async\<close>
  executor, and the returned promise stays pending.
\<close>

theorem decode_failure_leaves_promise_pending:
  "assembleVideo sampleHost [png ''a'', png ''corrupt'', png ''c''] 9
     = (None, \<lparr> result = Pending, chunks = [], currentScene = Fin 0, framePending = False,
                effects = [], uncaught = [ImageLoadFailed] \<rparr>)"
  by (simp add: evals)

text \<open>
  Claim C5, as the code has it. When the recorder reports an error while the result is
  pending, the result is rejected with the error event and stays so whatever events
  follow, so no blob reaches the caller. The code does not drop the chunks or its
  \<^verbatim>\<open>onstop\<close> handler; the evaluation after the theorem shows a stop event after the
  error concatenating them.
\<close>

theorem encoder_error_rejects:
  assumes "assembleVideo h images D = (Some c, s0)"
    and "result (run (Some c, s0) pre) = Pending"
  shows "result (run (Some c, s0) (pre @ Errored e # post)) = Rejected (RecorderErrorEvent e)"
  using assms(2) by (rule encoder_error_rejects_aux)

theorem encoder_error_rejects_witness:
  "result (run (assembleVideo sampleHost [png ''a''] 9)
      ([DataAvailable [1, 2]] @ Errored ''e'' # [DataAvailable [3], Stopped]))
    = Rejected (RecorderErrorEvent ''e'')"
proof -
  have a: "assembleVideo sampleHost [png ''a''] 9 =
      (Some \<lparr> audioDuration = 9, imageCount = 1, imageElements = [sampleElement], startTime = 5000 \<rparr>,
       initial\<lparr>effects := [AudioStarted, RecorderStarted], framePending := True\<rparr>)"
    by (simp add: assembleVideo_def sampleHost_def sampleLoad_def png_def)
  have b: "result (run (Some \<lparr> audioDuration = 9, imageCount = 1, imageElements = [sampleElement], startTime = 5000 \<rparr>,
       initial\<lparr>effects := [AudioStarted, RecorderStarted], framePending := True\<rparr>) [DataAvailable [1, 2]]) = Pending"
    by (simp add: run_def initial_def)
  show ?thesis using encoder_error_rejects[OF a b] by (simp only: a)
qed

theorem chunks_concatenated_after_error:
  "chunks (run (assembleVideo sampleHost [png ''a''] 9)
      [DataAvailable [1, 2], Errored ''e'', DataAvailable [3], Stopped])
    = [[1, 2], [3]]
   \<and> effects (run (assembleVideo sampleHost [png ''a''] 9)
      [DataAvailable [1, 2], Errored ''e'', DataAvailable [3], Stopped])
    = [AudioStarted, RecorderStarted, BlobBuilt \<lparr> blobBytes = [1, 2, 3], blobType = ''video/webm'' \<rparr>]"
  by (simp add: evals)

text \<open>
  Claim C6 says that a set-up failure rejects the promise. The code does so for a
  missing drawing context only. A \<^verbatim>\<open>MediaRecorder\<close> constructor that refuses the mime
  type, or a canvas without \<^verbatim>\<open>captureStream\<close>, throws after the \<^verbatim>\<open>await\<close> inside the
  \<^verbatim>\<open>async\<close> executor: \<^verbatim>\<open>reject\<close> is never called and the returned promise stays
  pending.
\<close>

theorem unsupported_recorder_leaves_promise_pending:
  "assembleVideo (sampleHost\<lparr>recorderSupported := False\<rparr>) [png ''a''] 9
     = (None, \<lparr> result = Pending, chunks = [], currentScene = Fin 0, framePending = False,
                effects = [AudioStarted], uncaught = [RecorderNotSupported] \<rparr>)
   \<and> assembleVideo (sampleHost\<lparr>hasCaptureStream := False\<rparr>) [png ''a''] 9
     = (None, \<lparr> result = Pending, chunks = [], currentScene = Fin 0, framePending = False,
                effects = [], uncaught = [CaptureStreamMissing] \<rparr>)
   \<and> assembleVideo (sampleHost\<lparr>hasContext2d := False\<rparr>) [png ''a''] 9
     = (None, \<lparr> result = Rejected CanvasContextNotAvailable, chunks = [], currentScene = Fin 0,
                framePending = False, effects = [], uncaught = [] \<rparr>)"
  by (simp add: evals)

text \<open>
  Claim C7 says that every tick before the audio duration renders a frame whose image
  lookup is in range. The code clamps the scene index from above with \<^verbatim>\<open>Math.min\<close> but
  not from below. Three images, nine seconds of audio, and a first animation frame whose
  time stamp is half a millisecond below the \<^verbatim>\<open>performance.now()\<close> read into
  \<^verbatim>\<open>startTime\<close>: the elapsed time is \<open>-0.0005\<close>, the index \<open>-1\<close>, the lookup
  \<^verbatim>\<open>undefined\<close>; the tick fills the canvas, throws on \<^verbatim>\<open>image.width\<close>, draws no
  image and requests no further frame. Later frames, also past the audio duration, find
  no callback: the recorder is never asked to stop and the promise stays pending.
\<close>

theorem early_frame_stops_render_loop:
  "run (assembleVideo sampleHost [png ''a'', png ''b'', png ''c''] 9) [AnimationFrame (9999 / 2)]
     = \<lparr> result = Pending, chunks = [], currentScene = Fin (- 1), framePending = False,
         effects = [AudioStarted, RecorderStarted, FillBlack], uncaught = [ImageUndefined] \<rparr>
   \<and> run (assembleVideo sampleHost [png ''a'', png ''b'', png ''c''] 9)
       [AnimationFrame (9999 / 2), AnimationFrame 5040, AnimationFrame 14000]
     = \<lparr> result = Pending, chunks = [], currentScene = Fin (- 1), framePending = False,
         effects = [AudioStarted, RecorderStarted, FillBlack], uncaught = [ImageUndefined] \<rparr>"
proof -
  have d: "draw \<lparr> audioDuration = 9, imageCount = 3,
       imageElements = [sampleElement, sampleElement, sampleElement], startTime = 5000 \<rparr>
       \<lparr> result = Pending, chunks = [], currentScene = Fin 0, framePending = True,
         effects = [AudioStarted, RecorderStarted], uncaught = [] \<rparr> (9999 / 2)
     = \<lparr> result = Pending, chunks = [], currentScene = Fin (- 1), framePending = False,
         effects = [AudioStarted, RecorderStarted, FillBlack], uncaught = [ImageUndefined] \<rparr>"
    unfolding draw_def Let_def elapsed_early closure.simps index_early
    by (simp add: element_def)
  show ?thesis
    unfolding sample_setup run_def by (simp add: initial_def d)
qed

text \<open>
  Claim C8. When every image loads, the loaded elements are one per image, as many as the
  images and in their order. The recorder is started, and the first frame requested, only
  in a state whose closure holds exactly these elements; on any host and any images, a
  started recorder or a requested frame means that every image had loaded. And on a host
  where the context, the capture stream, the audio graph and the recorder are there,
  set-up does go through: it starts the audio and the recorder, requests the first frame
  and hands exactly these elements, in this order, to the render loop.
\<close>

theorem frames_in_order:
  assumes "\<forall>img \<in> set images. loadImage h img \<noteq> None"
  shows "loadAll (loadImage h) images = Some (map (\<lambda>img. the (loadImage h img)) images)
       \<and> length (map (\<lambda>img. the (loadImage h img)) images) = length images
       \<and> (\<forall>i < length images. loadImage h (images ! i)
             = Some (map (\<lambda>img. the (loadImage h img)) images ! i))
       \<and> (\<forall>D c s. assembleVideo h images D = (c, s)
             \<and> (RecorderStarted \<in> set (effects s) \<or> framePending s) \<longrightarrow>
             (\<exists>c'. c = Some c'
                \<and> imageElements c' = map (\<lambda>img. the (loadImage h img)) images))
       \<and> (\<forall>h' images' D c s. assembleVideo h' images' D = (c, s)
             \<and> (RecorderStarted \<in> set (effects s) \<or> framePending s) \<longrightarrow>
             (\<forall>img \<in> set images'. loadImage h' img \<noteq> None))
       \<and> (hasContext2d h \<and> hasCaptureStream h \<and> audioGraphWorks h \<and> hasAudioTrack h
            \<and> recorderSupported h \<longrightarrow>
            (\<forall>D. assembleVideo h images D =
               (Some \<lparr> audioDuration = D, imageCount = length images,
                        imageElements = map (\<lambda>img. the (loadImage h img)) images,
                        startTime = performanceNow h \<rparr>,
                initial\<lparr>effects := [AudioStarted, RecorderStarted], framePending := True\<rparr>)))"
proof (intro conjI allI impI)
  show "loadAll (loadImage h) images = Some (map (\<lambda>img. the (loadImage h img)) images)"
    using assms by (rule loadAll_total)
next
  show "length (map (\<lambda>img. the (loadImage h img)) images) = length images" by simp
next
  fix i assume "i < length images"
  then show "loadImage h (images ! i) = Some (map (\<lambda>img. the (loadImage h img)) images ! i)"
    using assms by (simp add: nth_mem)
next
  fix D c s
  assume "assembleVideo h images D = (c, s) \<and> (RecorderStarted \<in> set (effects s) \<or> framePending s)"
  then show "\<exists>c'. c = Some c' \<and> imageElements c' = map (\<lambda>img. the (loadImage h img)) images"
    using loadAll_total[OF assms]
    by (auto simp: assembleVideo_def initial_def split: if_splits)
next
  fix h' images' D c s
  assume "assembleVideo h' images' D = (c, s) \<and> (RecorderStarted \<in> set (effects s) \<or> framePending s)"
  then have "loadAll (loadImage h') images' \<noteq> None"
    by (auto simp: assembleVideo_def initial_def split: if_splits option.splits)
  then show "\<forall>img \<in> set images'. loadImage h' img \<noteq> None"
    by (simp only: loadAll_Some_iff)
next
  fix D
  assume "hasContext2d h \<and> hasCaptureStream h \<and> audioGraphWorks h \<and> hasAudioTrack h
      \<and> recorderSupported h"
  then show "assembleVideo h images D =
               (Some \<lparr> audioDuration = D, imageCount = length images,
                        imageElements = map (\<lambda>img. the (loadImage h img)) images,
                        startTime = performanceNow h \<rparr>,
                initial\<lparr>effects := [AudioStarted, RecorderStarted], framePending := True\<rparr>)"
    using loadAll_total[OF assms] by (simp add: assembleVideo_def)
qed

theorem frames_in_order_witness:
  "loadAll (loadImage sampleHost) [png ''a'', png ''b'', png ''c'']
     = Some [sampleElement, sampleElement, sampleElement]
   \<and> assembleVideo sampleHost [png ''a'', png ''b'', png ''c''] 9 =
     (Some \<lparr> audioDuration = 9, imageCount = 3,
              imageElements = [sampleElement, sampleElement, sampleElement], startTime = 5000 \<rparr>,
      \<lparr> result = Pending, chunks = [], currentScene = Fin 0, framePending = True,
        effects = [AudioStarted, RecorderStarted], uncaught = [] \<rparr>)"
proof -
  have l: "\<forall>img \<in> set [png ''a'', png ''b'', png ''c'']. loadImage sampleHost img \<noteq> None"
    by (simp add: sampleHost_def sampleLoad_def png_def)
  note T = frames_in_order[OF l]
  have a: "loadAll (loadImage sampleHost) [png ''a'', png ''b'', png ''c'']
     = Some (map (\<lambda>img. the (loadImage sampleHost img)) [png ''a'', png ''b'', png ''c''])"
    using T by (rule conjunct1)
  have f: "hasContext2d sampleHost \<and> hasCaptureStream sampleHost \<and> audioGraphWorks sampleHost
      \<and> hasAudioTrack sampleHost \<and> recorderSupported sampleHost"
    by (simp add: sampleHost_def)
  have b: "assembleVideo sampleHost [png ''a'', png ''b'', png ''c''] 9 =
               (Some \<lparr> audioDuration = 9, imageCount = length [png ''a'', png ''b'', png ''c''],
                        imageElements = map (\<lambda>img. the (loadImage sampleHost img))
                                          [png ''a'', png ''b'', png ''c''],
                        startTime = performanceNow sampleHost \<rparr>,
                initial\<lparr>effects := [AudioStarted, RecorderStarted], framePending := True\<rparr>)"
    by (rule T[THEN conjunct2, THEN conjunct2, THEN conjunct2, THEN conjunct2, THEN conjunct2,
          THEN mp, OF f, THEN spec])
  show ?thesis
    by (simp only: a b) (simp add: sampleHost_def sampleLoad_def png_def initial_def)
qed

text \<open>
  Claim C9. After a completed set-up: a stop event that no stop or error event precedes
  resolves the promise with the blob of all chunks received so far, in the order received,
  typed \<^verbatim>\<open>video/webm\<close>. Conversely a promise resolved with \<open>b\<close> was resolved by the
  first stop event of the run, no error before it, and \<open>b\<close> is that blob; when no chunk
  arrives after that stop event, \<open>b\<close> holds every chunk of the run.
\<close>

theorem resolved_blob:
  assumes "assembleVideo h images D = (Some c, s0)"
  shows "(\<forall>pre post. (\<forall>ev \<in> set pre. \<not> isSignal ev) \<longrightarrow>
            result (run (Some c, s0) (pre @ Stopped # post))
              = Resolved \<lparr> blobBytes = concat (dataOf pre), blobType = ''video/webm'' \<rparr>)
       \<and> (\<forall>evs b. result (run (Some c, s0) evs) = Resolved b \<longrightarrow>
            (\<exists>pre post. evs = pre @ Stopped # post \<and> (\<forall>ev \<in> set pre. \<not> isSignal ev)
               \<and> b = \<lparr> blobBytes = concat (dataOf pre), blobType = ''video/webm'' \<rparr>
               \<and> (dataOf post = [] \<longrightarrow> blobBytes b = concat (dataOf evs))))"
proof -
  have s0: "result s0 = Pending" "chunks s0 = []"
    using setup_pending[OF assms] by simp_all
  have fwd: "result (run (Some c, s0) (pre @ Stopped # post))
              = Resolved \<lparr> blobBytes = concat (dataOf pre), blobType = ''video/webm'' \<rparr>"
    if q: "\<forall>ev \<in> set pre. \<not> isSignal ev" for pre post
  proof -
    let ?s = "foldl (step c) s0 pre"
    have "result ?s = Pending" "chunks ?s = dataOf pre"
      using run_quiet[OF q, of c s0] s0 by simp_all
    then have "result (step c ?s Stopped)
        = Resolved \<lparr> blobBytes = concat (dataOf pre), blobType = ''video/webm'' \<rparr>"
      by (simp add: settle_def newBlob_def Let_def)
    then have "result (foldl (step c) (step c ?s Stopped) post)
        = Resolved \<lparr> blobBytes = concat (dataOf pre), blobType = ''video/webm'' \<rparr>"
      by (simp add: run_settled)
    then show ?thesis by (simp add: run_Some)
  qed
  have bwd: "\<exists>pre post. evs = pre @ Stopped # post \<and> (\<forall>ev \<in> set pre. \<not> isSignal ev)
               \<and> b = \<lparr> blobBytes = concat (dataOf pre), blobType = ''video/webm'' \<rparr>
               \<and> (dataOf post = [] \<longrightarrow> blobBytes b = concat (dataOf evs))"
    if r: "result (run (Some c, s0) evs) = Resolved b" for evs b
  proof -
    have "\<exists>ev \<in> set evs. isSignal ev"
    proof (rule ccontr)
      assume "\<not> (\<exists>ev \<in> set evs. isSignal ev)"
      then have "\<forall>ev \<in> set evs. \<not> isSignal ev" by simp
      then have "result (foldl (step c) s0 evs) = Pending"
        using run_quiet[of evs c s0] s0 by simp
      then show False using r by (simp add: run_Some)
    qed
    then obtain pre ev post where
      d: "evs = pre @ ev # post" and sig: "isSignal ev" and q: "\<forall>x \<in> set pre. \<not> isSignal x"
      using first_signal[of evs] by blast
    show ?thesis
    proof (cases ev)
      case Stopped
      then have b: "b = \<lparr> blobBytes = concat (dataOf pre), blobType = ''video/webm'' \<rparr>"
        using fwd[OF q, of post] r d by simp
      have "dataOf evs = dataOf pre @ dataOf post"
        using d Stopped dataOf_append[of pre "Stopped # post"] by simp
      then have "dataOf post = [] \<longrightarrow> blobBytes b = concat (dataOf evs)"
        using b by simp
      then have "evs = pre @ Stopped # post \<and> (\<forall>ev \<in> set pre. \<not> isSignal ev)
               \<and> b = \<lparr> blobBytes = concat (dataOf pre), blobType = ''video/webm'' \<rparr>
               \<and> (dataOf post = [] \<longrightarrow> blobBytes b = concat (dataOf evs))"
        using d Stopped q b by simp
      then show ?thesis by blast
    next
      case (Errored e)
      have "result (run (Some c, s0) pre) = Pending"
        using run_quiet[OF q, of c s0] s0 by (simp add: run_Some)
      then have "result (run (Some c, s0) (pre @ Errored e # post)) = Rejected (RecorderErrorEvent e)"
        by (rule encoder_error_rejects_aux)
      then show ?thesis using r d Errored by simp
    next
      case (DataAvailable x)
      then show ?thesis using sig by simp
    next
      case (AnimationFrame x)
      then show ?thesis using sig by simp
    qed
  qed
  show ?thesis using fwd bwd by blast
qed

theorem resolved_blob_witness:
  "result (run (assembleVideo sampleHost [png ''a'', png ''b'', png ''c''] 9)
      ([DataAvailable [1, 2], AnimationFrame 14000, DataAvailable [3]] @ Stopped # []))
    = Resolved \<lparr> blobBytes = [1, 2, 3], blobType = ''video/webm'' \<rparr>"
proof -
  have q: "\<forall>ev \<in> set [DataAvailable [1, 2], AnimationFrame 14000, DataAvailable [3]]. \<not> isSignal ev"
    by simp
  have "\<forall>pre post. (\<forall>ev \<in> set pre. \<not> isSignal ev) \<longrightarrow>
      result (run (Some \<lparr> audioDuration = 9, imageCount = 3,
              imageElements = [sampleElement, sampleElement, sampleElement], startTime = 5000 \<rparr>,
          initial\<lparr>effects := [AudioStarted, RecorderStarted], framePending := True\<rparr>)
        (pre @ Stopped # post))
      = Resolved \<lparr> blobBytes = concat (dataOf pre), blobType = ''video/webm'' \<rparr>"
    using resolved_blob[OF sample_setup] by (rule conjunct1)
  then have "result (run (Some \<lparr> audioDuration = 9, imageCount = 3,
              imageElements = [sampleElement, sampleElement, sampleElement], startTime = 5000 \<rparr>,
          initial\<lparr>effects := [AudioStarted, RecorderStarted], framePending := True\<rparr>)
        ([DataAvailable [1, 2], AnimationFrame 14000, DataAvailable [3]] @ Stopped # []))
      = Resolved \<lparr> blobBytes = concat (dataOf [DataAvailable [1, 2], AnimationFrame 14000, DataAvailable [3]]),
                     blobType = ''video/webm'' \<rparr>"
    using q by blast
  then show ?thesis
    by (simp only: sample_setup) simp
qed

text \<open>
  Claim C10. With no image and \<open>D > 0\<close> the scene duration is \<open>+Infinity\<close> (it is
  a finite number for no \<open>D\<close> at all), the scene index is \<open>-1\<close> at every finite elapsed
  time, and the lookup gives \<^verbatim>\<open>undefined\<close>. Nothing rejects the call: on a host
  where everything works set-up goes through and requests the first frame. Every tick
  whose elapsed time is below \<open>D\<close> then fills the canvas and throws, and no run ever
  draws an image.
\<close>

theorem empty_image_list:
  assumes "0 < D"
  shows "sceneDuration D 0 = PInf
       \<and> (\<forall>D' r. sceneDuration D' 0 \<noteq> Fin r)
       \<and> (\<forall>t. sceneIndex D 0 (Fin t) = Fin (- 1)
              \<and> element ([] :: image_element list) (sceneIndex D 0 (Fin t)) = None)
       \<and> (\<forall>h. hasContext2d h \<and> hasCaptureStream h \<and> audioGraphWorks h \<and> hasAudioTrack h
             \<and> recorderSupported h \<longrightarrow>
             assembleVideo h [] D =
               (Some \<lparr> audioDuration = D, imageCount = 0, imageElements = [],
                        startTime = performanceNow h \<rparr>,
                initial\<lparr>effects := [AudioStarted, RecorderStarted], framePending := True\<rparr>))
       \<and> (\<forall>h c s0 now s t. assembleVideo h [] D = (Some c, s0)
             \<and> elapsedTime c now = Fin t \<and> t < D \<longrightarrow>
             draw c s now =
               s\<lparr>currentScene := Fin (- 1), framePending := False,
                 effects := effects s @ [FillBlack], uncaught := uncaught s @ [ImageUndefined]\<rparr>)
       \<and> (\<forall>h c s0 evs. assembleVideo h [] D = (Some c, s0) \<longrightarrow>
             drawn (run (Some c, s0) evs) = [])"
proof (intro conjI allI impI)
  show "sceneDuration D 0 = PInf" using assms by (simp add: sceneDuration_def)
next
  fix D' r show "sceneDuration D' 0 \<noteq> Fin r" by (simp add: sceneDuration_def)
next
  fix t show "sceneIndex D 0 (Fin t) = Fin (- 1)" using assms by (rule sceneIndex_no_images)
next
  fix t show "element ([] :: image_element list) (sceneIndex D 0 (Fin t)) = None"
    by (rule element_Nil)
next
  fix h :: host
  assume "hasContext2d h \<and> hasCaptureStream h \<and> audioGraphWorks h \<and> hasAudioTrack h
      \<and> recorderSupported h"
  then show "assembleVideo h [] D =
               (Some \<lparr> audioDuration = D, imageCount = 0, imageElements = [],
                        startTime = performanceNow h \<rparr>,
                initial\<lparr>effects := [AudioStarted, RecorderStarted], framePending := True\<rparr>)"
    by (simp add: assembleVideo_def)
next
  fix h c s0 now s t
  assume a: "assembleVideo h [] D = (Some c, s0) \<and> elapsedTime c now = Fin t \<and> t < D"
  then have c: "audioDuration c = D" "imageCount c = 0" "imageElements c = []"
    using setup_closure[of h "[]" D c s0] by simp_all
  have e: "elapsedTime c now = Fin t" using a by simp
  have early: "\<not> js_ge (Fin t) (Fin (audioDuration c))" using a c by simp
  have idx: "sceneIndex (audioDuration c) (imageCount c) (Fin t) = Fin (- 1)"
    using sceneIndex_no_images[OF assms] c by simp
  show "draw c s now =
               s\<lparr>currentScene := Fin (- 1), framePending := False,
                 effects := effects s @ [FillBlack], uncaught := uncaught s @ [ImageUndefined]\<rparr>"
    by (simp only: draw_def Let_def e early if_False idx c(3) element_Nil option.case)
next
  fix h c s0 evs
  assume a: "assembleVideo h [] D = (Some c, s0)"
  then have "imageElements c = []" "drawn s0 = []"
    using setup_closure[of h "[]" D c s0] by (simp_all add: drawn_def initial_def)
  then show "drawn (run (Some c, s0) evs) = []"
    by (simp add: run_Some run_no_images)
qed

theorem empty_image_list_witness:
  "sceneIndex 9 0 (Fin 3) = Fin (- 1)
   \<and> uncaught (run (assembleVideo sampleHost [] 9) [AnimationFrame 8000]) = [ImageUndefined]
   \<and> drawn (run (assembleVideo sampleHost [] 9) [AnimationFrame 8000]) = []"
proof -
  have d: "(0::real) < 9" by simp
  have a: "assembleVideo sampleHost [] 9 =
               (Some \<lparr> audioDuration = 9, imageCount = 0, imageElements = [],
                        startTime = performanceNow sampleHost \<rparr>,
                initial\<lparr>effects := [AudioStarted, RecorderStarted], framePending := True\<rparr>)"
    using empty_image_list[OF d] by (simp add: sampleHost_def)
  have "sceneIndex 9 0 (Fin 3) = Fin (- 1)" using empty_image_list[OF d] by blast
  moreover have "drawn (run (assembleVideo sampleHost [] 9) [AnimationFrame 8000]) = []"
    unfolding a using empty_image_list[OF d] a by blast
  moreover have "uncaught (run (assembleVideo sampleHost [] 9) [AnimationFrame 8000]) = [ImageUndefined]"
    by (simp only: a)
       (simp add: run_def initial_def sampleHost_def draw_def elapsed_3s sceneIndex_no_images
          element_def)
  ultimately show ?thesis by simp
qed

end
